theory Spec2Isabelle
  imports Main "HOL-Library.Word"
begin

section \<open>JavaScript values as the program sees them\<close>

text \<open>
  The program is the React component \<open>App\<close> of \<open>my-app/src/App.jsx\<close> (the revision that
  iterates over arrays of step objects).  It receives one JSON document from the
  generation endpoint and renders it.  A JavaScript string is a sequence of UTF-16 code
  units, so strings are lists of 16-bit words; \<open>lit\<close> turns an ASCII literal of the source
  into such a list.
\<close>

type_synonym jsstring = "16 word list"

definition lit :: "string \<Rightarrow> jsstring" where
  "lit s = map of_char s"

text \<open>
  A value is what \<open>JSON.parse\<close> produces, together with \<open>undefined\<close>, which reading a
  missing property yields.  Numbers are IEEE doubles; their truth value and their formatting
  belong to the JavaScript engine, so the number type is a parameter \<open>'n\<close> and the engine's
  operations on it come in a \<open>host\<close> record, with the texts of the engine's error messages.  An object is the list of its own properties.
\<close>

datatype 'n val =
    VUndefined
  | VNull
  | VBool bool
  | VNum 'n
  | VStr jsstring
  | VArr "'n val list"
  | VObj "(jsstring \<times> 'n val) list"

text \<open>
  The exceptions the program can raise by itself are all \<open>TypeError\<close>s: reading a property
  of \<open>null\<close> or \<open>undefined\<close>, calling something that is not a function, and converting an
  object that has no usable \<open>toString\<close> to a string.
\<close>

datatype js_exn =
    ReadOfNull jsstring
  | ReadOfUndefined jsstring
  | NotAFunction jsstring
  | NotPrimitive

record 'n host =
  num_truthy :: "'n \<Rightarrow> bool"          \<comment> \<open>\<open>ToBoolean\<close>: false for \<open>0\<close>, \<open>-0\<close> and \<open>NaN\<close>\<close>
  num_text :: "'n \<Rightarrow> jsstring"        \<comment> \<open>\<open>String(n)\<close>\<close>
  num_locale_text :: "'n \<Rightarrow> jsstring" \<comment> \<open>\<open>n.toLocaleString()\<close>\<close>
  exn_text :: "js_exn \<Rightarrow> jsstring"    \<comment> \<open>the \<open>message\<close> of the engine's \<open>TypeError\<close>\<close>

definition bind_exn :: "js_exn + 'a \<Rightarrow> ('a \<Rightarrow> js_exn + 'b) \<Rightarrow> js_exn + 'b" where
  "bind_exn r f = (case r of Inl e \<Rightarrow> Inl e | Inr x \<Rightarrow> f x)"

definition nullish :: "'n val \<Rightarrow> bool" where
  "nullish v = (v = VUndefined \<or> v = VNull)"

fun truthy :: "'n host \<Rightarrow> 'n val \<Rightarrow> bool" where
  "truthy h VUndefined = False"
| "truthy h VNull = False"
| "truthy h (VBool b) = b"
| "truthy h (VNum n) = num_truthy h n"
| "truthy h (VStr s) = (s \<noteq> [])"
| "truthy h (VArr xs) = True"
| "truthy h (VObj kvs) = True"

text \<open>
  \<open>field v k\<close> is \<open>v.k\<close> for a value that is neither \<open>null\<close> nor \<open>undefined\<close>, and \<open>k\<close> one
  of the data keys the program reads (\<open>error\<close>, \<open>ingestion\<close>, \<open>section\<close>, ...): none of them
  is a built-in property of strings, arrays, numbers or booleans, so only an object can
  answer with something else than \<open>undefined\<close>.  \<open>member\<close> is the plain access \<open>v.k\<close>, which
  throws on \<open>null\<close> and \<open>undefined\<close>; \<open>opt_member\<close> is \<open>v?.k\<close>.
\<close>

fun field :: "'n val \<Rightarrow> jsstring \<Rightarrow> 'n val" where
  "field (VObj kvs) k = (case map_of kvs k of Some v \<Rightarrow> v | None \<Rightarrow> VUndefined)"
| "field v k = VUndefined"

fun member :: "'n val \<Rightarrow> jsstring \<Rightarrow> js_exn + 'n val" where
  "member VNull k = Inl (ReadOfNull k)"
| "member VUndefined k = Inl (ReadOfUndefined k)"
| "member v k = Inr (field v k)"

definition opt_member :: "'n val \<Rightarrow> jsstring \<Rightarrow> 'n val" where
  "opt_member v k = (if nullish v then VUndefined else field v k)"

definition or_else :: "'n host \<Rightarrow> 'n val \<Rightarrow> 'n val \<Rightarrow> 'n val" where
  \<comment> \<open>\<open>v || d\<close>\<close>
  "or_else h v d = (if truthy h v then v else d)"

definition has_key :: "(jsstring \<times> 'n val) list \<Rightarrow> string \<Rightarrow> bool" where
  "has_key kvs k = (map_of kvs (lit k) \<noteq> None)"

text \<open>
  \<open>to_string\<close> is the conversion that \<open>+\<close> with a string, a template literal and
  \<open>new Error(x)\<close> apply.  An object parsed from JSON holds no function, so an own property
  named \<open>toString\<close> hides \<open>Object.prototype.toString\<close> and the conversion throws; an array
  joins the conversions of its elements with commas, \<open>null\<close> and \<open>undefined\<close> elements
  giving the empty string.
\<close>

fun to_string :: "'n host \<Rightarrow> 'n val \<Rightarrow> js_exn + jsstring"
and join_texts :: "'n host \<Rightarrow> 'n val list \<Rightarrow> js_exn + jsstring" where
  "to_string h VUndefined = Inr (lit ''undefined'')"
| "to_string h VNull = Inr (lit ''null'')"
| "to_string h (VBool b) = Inr (lit (if b then ''true'' else ''false''))"
| "to_string h (VNum n) = Inr (num_text h n)"
| "to_string h (VStr s) = Inr s"
| "to_string h (VArr xs) = join_texts h xs"
| "to_string h (VObj kvs) =
     (if has_key kvs ''toString'' then Inl NotPrimitive else Inr (lit ''[object Object]''))"
| "join_texts h [] = Inr []"
| "join_texts h (x # xs) =
     bind_exn (if nullish x then Inr [] else to_string h x) (\<lambda>a.
       if xs = [] then Inr a
       else bind_exn (join_texts h xs) (\<lambda>b. Inr (a @ lit '','' @ b)))"

text \<open>
  \<open>to_locale_string h v\<close> is the call \<open>v.toLocaleString()\<close> on a value that is neither
  \<open>null\<close> nor \<open>undefined\<close>.  Strings answer with themselves, booleans and plain objects
  through \<open>Object.prototype.toLocaleString\<close>, which calls \<open>this.toString()\<close>.
\<close>

fun to_locale_string :: "'n host \<Rightarrow> 'n val \<Rightarrow> js_exn + jsstring"
and join_locale :: "'n host \<Rightarrow> 'n val list \<Rightarrow> js_exn + jsstring" where
  "to_locale_string h VUndefined = Inl (ReadOfUndefined (lit ''toLocaleString''))"
| "to_locale_string h VNull = Inl (ReadOfNull (lit ''toLocaleString''))"
| "to_locale_string h (VBool b) = Inr (lit (if b then ''true'' else ''false''))"
| "to_locale_string h (VNum n) = Inr (num_locale_text h n)"
| "to_locale_string h (VStr s) = Inr s"
| "to_locale_string h (VArr xs) = join_locale h xs"
| "to_locale_string h (VObj kvs) =
     (if has_key kvs ''toLocaleString'' then Inl (NotAFunction (lit ''toLocaleString''))
      else if has_key kvs ''toString'' then Inl (NotAFunction (lit ''toString''))
      else Inr (lit ''[object Object]''))"
| "join_locale h [] = Inr []"
| "join_locale h (x # xs) =
     bind_exn (if nullish x then Inr [] else to_locale_string h x) (\<lambda>a.
       if xs = [] then Inr a
       else bind_exn (join_locale h xs) (\<lambda>b. Inr (a @ lit '','' @ b)))"

text \<open>The decimal digits of a natural number, as a template literal prints an index.\<close>

function decimal :: "nat \<Rightarrow> jsstring" where
  "decimal n = (if n < 10 then [of_nat (48 + n)] else decimal (n div 10) @ [of_nat (48 + n mod 10)])"
  by pat_completeness auto
termination
  by (relation "measure id") auto

declare decimal.simps [simp del]

section \<open>The request lifecycle: \<open>handleGenerate\<close>\<close>

text \<open>
  \<open>String.prototype.trim\<close> removes white space and line terminators from both ends.
\<close>

definition is_line_terminator :: "16 word \<Rightarrow> bool" where
  "is_line_terminator c = (c = 0x000A \<or> c = 0x000D \<or> c = 0x2028 \<or> c = 0x2029)"

definition is_white_space :: "16 word \<Rightarrow> bool" where
  "is_white_space c =
     (c = 0x0009 \<or> c = 0x000B \<or> c = 0x000C \<or> c = 0x0020 \<or> c = 0x00A0 \<or> c = 0x1680
      \<or> (0x2000 \<le> c \<and> c \<le> 0x200A) \<or> c = 0x202F \<or> c = 0x205F \<or> c = 0x3000 \<or> c = 0xFEFF)"

definition trimmable :: "16 word \<Rightarrow> bool" where
  "trimmable c = (is_white_space c \<or> is_line_terminator c)"

definition trim :: "jsstring \<Rightarrow> jsstring" where
  "trim s = rev (dropWhile trimmable (rev (dropWhile trimmable s)))"

datatype tab = Ingestion | Pandas | Rag | Synthesis

record 'n app_state =
  activeTab :: tab
  loading :: bool
  data :: "'n val"               \<comment> \<open>\<open>null\<close> is \<open>VNull\<close>\<close>
  error :: "jsstring option"     \<comment> \<open>\<open>null\<close> is \<open>None\<close>\<close>
  instructions :: jsstring

definition initial_state :: "'n app_state" where
  "initial_state =
     \<lparr>activeTab = Ingestion, loading = False, data = VNull, error = None, instructions = []\<rparr>"

text \<open>
  What the awaited \<open>fetch(...)\<close> and \<open>response.json()\<close> deliver: a rejection, of which the
  handler reads the \<open>message\<close>, or the parsed body.
\<close>

datatype 'n outcome = Rejected jsstring | Parsed "'n val"

definition request_body :: "jsstring \<Rightarrow> 'n val" where
  \<comment> \<open>the object handed to \<open>JSON.stringify\<close>\<close>
  "request_body instr = VObj [(lit ''user_instructions'', VStr (trim instr))]"

definition start :: "'n app_state \<Rightarrow> 'n app_state" where
  \<comment> \<open>\<open>setLoading(true); setError(null); setData(null)\<close>\<close>
  "start st = st\<lparr>loading := True, error := None, data := VNull\<rparr>"

definition failed :: "jsstring \<Rightarrow> 'n app_state \<Rightarrow> 'n app_state" where
  \<comment> \<open>\<open>catch (err) { setError(err.message) } finally { setLoading(false) }\<close>\<close>
  "failed m st = st\<lparr>error := Some m, loading := False\<rparr>"

definition resolve :: "'n host \<Rightarrow> 'n outcome \<Rightarrow> 'n app_state \<Rightarrow> 'n app_state" where
  "resolve h out st =
     (case out of
        Rejected m \<Rightarrow> failed m st
      | Parsed result \<Rightarrow>
          (case member result (lit ''error'') of
             Inl e \<Rightarrow> failed (exn_text h e) st
           | Inr err \<Rightarrow>
               if truthy h err then
                 (case to_string h err of
                    Inl e \<Rightarrow> failed (exn_text h e) st
                  | Inr m \<Rightarrow> failed m st)
               else st\<lparr>data := result, activeTab := Synthesis, loading := False\<rparr>))"

definition handleGenerate :: "'n host \<Rightarrow> 'n outcome \<Rightarrow> 'n app_state \<Rightarrow> 'n val \<times> 'n app_state" where
  \<comment> \<open>the request body sent, and the state once the handler has finished\<close>
  "handleGenerate h out st = (request_body (instructions st), resolve h out (start st))"

text \<open>
  The four lifecycle states of the specification, read off the three state variables
  \<open>loading\<close>, \<open>error\<close> and \<open>data\<close>.
\<close>

datatype 'n lifecycle = Idle | Pending | Succeeded "'n val" | Failed jsstring

definition spec_lifecycle :: "'n app_state \<Rightarrow> 'n lifecycle" where
  "spec_lifecycle st =
     (if loading st then Pending
      else case error st of
             Some m \<Rightarrow> Failed m
           | None \<Rightarrow> if data st = VNull then Idle else Succeeded (data st))"

section \<open>The section views\<close>

text \<open>
  A view is modelled up to what it hands to React: the texts it builds and the values it
  places as children, in the order of the JSX.  A view that throws while it is evaluated
  returns the exception.
\<close>

subsection \<open>\<open>IngestionView\<close>\<close>

datatype total = TotalText jsstring | TotalZero

record 'n ingestion_view =
  status_badge :: "'n val"
  total_records :: total
  column_chips :: "'n val list"
  more_columns :: "jsstring option"

definition total_records_of :: "'n host \<Rightarrow> 'n val \<Rightarrow> js_exn + total" where
  \<comment> \<open>\<open>data?.row_count?.toLocaleString() || 0\<close>\<close>
  "total_records_of h d =
     (let v = opt_member d (lit ''row_count'') in
      if nullish v then Inr TotalZero
      else bind_exn (to_locale_string h v) (\<lambda>s. Inr (if s = [] then TotalZero else TotalText s)))"

definition more_label :: "nat \<Rightarrow> jsstring" where
  \<comment> \<open>\<open>+{data.columns.length - 6} more\<close>\<close>
  "more_label n = lit ''+'' @ decimal (n - 6) @ lit '' more''"

definition columns_of :: "'n val \<Rightarrow> js_exn + 'n val list \<times> jsstring option" where
  \<comment> \<open>\<open>data?.columns?.slice(0, 6).map(...)\<close>, then \<open>(data?.columns?.length > 6) && ...\<close>\<close>
  "columns_of d =
     (case opt_member d (lit ''columns'') of
        VUndefined \<Rightarrow> Inr ([], None)
      | VNull \<Rightarrow> Inr ([], None)
      | VArr cs \<Rightarrow> Inr (take 6 cs, if 6 < length cs then Some (more_label (length cs)) else None)
      | VStr s \<Rightarrow> Inl (NotAFunction (lit ''map''))
      | _ \<Rightarrow> Inl (NotAFunction (lit ''slice'')))"

definition IngestionView :: "'n host \<Rightarrow> 'n val \<Rightarrow> js_exn + 'n ingestion_view" where
  "IngestionView h d =
     bind_exn (total_records_of h d) (\<lambda>t.
     bind_exn (columns_of d) (\<lambda>(chips, more).
       Inr \<lparr>status_badge = or_else h (opt_member d (lit ''status'')) (VStr (lit ''Ready'')),
            total_records = t, column_chips = chips, more_columns = more\<rparr>))"

subsection \<open>\<open>PandasAgentView\<close> and \<open>RAGAgentView\<close>\<close>

datatype plot = InlineImage jsstring jsstring | NoImage jsstring

text \<open>
  \<open>v && <div>...{v}...</div>\<close> is the block when \<open>v\<close> is truthy and the falsy value \<open>v\<close>
  itself, no element, otherwise.
\<close>

datatype 'n conditional = Skipped "'n val" | Shown "'n val"

definition when_truthy :: "'n host \<Rightarrow> 'n val \<Rightarrow> 'n conditional" where
  "when_truthy h v = (if truthy h v then Shown v else Skipped v)"

datatype 'b section_view = Placeholder jsstring | Blocks "'b list"

record 'n analysis_block =
  step_number :: nat
  step_label :: "'n val"
  task :: "'n val"
  code_text :: "'n val"
  plot_area :: plot
  key_findings :: "'n conditional"

record 'n research_block =
  research_number :: nat
  research_label :: "'n val"
  question :: "'n val"
  context_text :: "'n val"
  research_insight :: "'n conditional"

definition plot_of :: "'n host \<Rightarrow> 'n val \<Rightarrow> js_exn + plot" where
  \<comment> \<open>\<open>item.image ? <img src=... alt=.../> : ...\<close>\<close>
  "plot_of h item =
     (if truthy h (field item (lit ''image'')) then
        bind_exn (to_string h (field item (lit ''image''))) (\<lambda>img.
        bind_exn (to_string h (field item (lit ''section''))) (\<lambda>sec.
          Inr (InlineImage (lit ''data:image/png;base64,'' @ img) (lit ''Plot for '' @ sec))))
      else Inr (NoImage (lit ''No visualization generated'')))"

definition analysis_block :: "'n host \<Rightarrow> nat \<Rightarrow> 'n val \<Rightarrow> js_exn + 'n analysis_block" where
  "analysis_block h index item =
     bind_exn (member item (lit ''section'')) (\<lambda>section.
     bind_exn (plot_of h item) (\<lambda>p.
       Inr \<lparr>step_number = index + 1,
            step_label = or_else h section (VStr (lit ''Analysis Step '' @ decimal (index + 1))),
            task = field item (lit ''query''),
            code_text = or_else h (field item (lit ''code'')) (VStr (lit ''# No code generated'')),
            plot_area = p,
            key_findings = when_truthy h (field item (lit ''insight''))\<rparr>))"

definition research_block :: "'n host \<Rightarrow> nat \<Rightarrow> 'n val \<Rightarrow> js_exn + 'n research_block" where
  "research_block h index item =
     bind_exn (member item (lit ''section'')) (\<lambda>section.
       Inr \<lparr>research_number = index + 1,
            research_label = or_else h section (VStr (lit ''Research Step '' @ decimal (index + 1))),
            question = field item (lit ''query''),
            context_text = or_else h (field item (lit ''context'')) (VStr (lit ''No context found.'')),
            research_insight = when_truthy h (field item (lit ''insight''))\<rparr>)"

fun map_steps :: "(nat \<Rightarrow> 'n val \<Rightarrow> js_exn + 'b) \<Rightarrow> nat \<Rightarrow> 'n val list \<Rightarrow> js_exn + 'b list" where
  \<comment> \<open>\<open>data.map((item, index) => ...)\<close>, from \<open>index\<close> on\<close>
  "map_steps f index [] = Inr []"
| "map_steps f index (item # rest) =
     bind_exn (f index item) (\<lambda>b.
     bind_exn (map_steps f (index + 1) rest) (\<lambda>bs. Inr (b # bs)))"

definition is_array :: "'n val \<Rightarrow> bool" where
  "is_array v = (case v of VArr xs \<Rightarrow> True | _ \<Rightarrow> False)"

definition elements :: "'n val \<Rightarrow> 'n val list" where
  "elements v = (case v of VArr xs \<Rightarrow> xs | _ \<Rightarrow> [])"

definition PandasAgentView :: "'n host \<Rightarrow> 'n val \<Rightarrow> js_exn + 'n analysis_block section_view" where
  "PandasAgentView h d =
     (if \<not> truthy h d \<or> \<not> is_array d \<or> length (elements d) = 0 then
        Inr (Placeholder (lit ''No quantitative analysis performed in this step.''))
      else bind_exn (map_steps (analysis_block h) 0 (elements d)) (\<lambda>bs. Inr (Blocks bs)))"

definition RAGAgentView :: "'n host \<Rightarrow> 'n val \<Rightarrow> js_exn + 'n research_block section_view" where
  "RAGAgentView h d =
     (if \<not> truthy h d \<or> \<not> is_array d \<or> length (elements d) = 0 then
        Inr (Placeholder (lit ''No qualitative research performed in this step.''))
      else bind_exn (map_steps (research_block h) 0 (elements d)) (\<lambda>bs. Inr (Blocks bs)))"

subsection \<open>\<open>SynthesisView\<close>\<close>

text \<open>
  The regular expression \<open>/!\[.*?\]\(.*?\)/g\<close>, run by a backtracking matcher: \<open>.\<close> is any
  code unit except a line terminator, and a lazy \<open>.*?\<close> first tries what follows it and
  takes one more code unit only when that fails.  \<open>src_lazy\<close> matches \<open>.*?\)\<close>, \<open>alt_lazy\<close>
  matches \<open>.*?\]\(.*?\)\<close> and \<open>match_image\<close> the whole expression at the start of the text;
  each returns the text after the match.
\<close>

fun src_lazy :: "jsstring \<Rightarrow> jsstring option" where
  "src_lazy [] = None"
| "src_lazy (c # cs) =
     (if c = 0x29 then Some cs else if is_line_terminator c then None else src_lazy cs)"

fun alt_lazy :: "jsstring \<Rightarrow> jsstring option" where
  "alt_lazy [] = None"
| "alt_lazy (c # cs) =
     (case (if c = 0x5D \<and> cs \<noteq> [] \<and> hd cs = 0x28 then src_lazy (tl cs) else None) of
        Some rest \<Rightarrow> Some rest
      | None \<Rightarrow> if is_line_terminator c then None else alt_lazy cs)"

definition match_image :: "jsstring \<Rightarrow> jsstring option" where
  "match_image s =
     (case s of
        a # b # rest \<Rightarrow> if a = 0x21 \<and> b = 0x5B then alt_lazy rest else None
      | _ \<Rightarrow> None)"

text \<open>
  \<open>text.replace(/!\[.*?\]\(.*?\)/g, "")\<close>: the matches are found from left to right, each
  search starting where the previous match ended, and are deleted.
\<close>

function strip_images :: "jsstring \<Rightarrow> jsstring" where
  "strip_images [] = []"
| "strip_images (c # cs) =
     (case match_image (c # cs) of
        Some rest \<Rightarrow> strip_images rest
      | None \<Rightarrow> c # strip_images cs)"
  by pat_completeness auto
termination
proof (relation "measure length")
  show "wf (measure length)" by simp
next
  fix c :: "16 word" and cs rest :: jsstring
  assume m: "match_image (c # cs) = Some rest"
  have src: "src_lazy s = Some r \<Longrightarrow> length r < length s" for s r
    by (induction s) (auto split: if_splits)
  have alt: "alt_lazy s = Some r \<Longrightarrow> length r < length s" for s r
  proof (induction s)
    case Nil
    then show ?case by simp
  next
    case (Cons a as)
    show ?case
    proof (cases "a = 0x5D \<and> as \<noteq> [] \<and> hd as = 0x28 \<and> src_lazy (tl as) \<noteq> None")
      case True
      then obtain r' where r': "src_lazy (tl as) = Some r'" by auto
      with True Cons.prems have "r = r'" by simp
      moreover from r' have "length r' < length (tl as)" by (rule src)
      ultimately show ?thesis by simp
    next
      case False
      with Cons.prems have "alt_lazy as = Some r"
        by (auto split: if_splits option.splits)
      then have "length r < length as" by (rule Cons.IH)
      then show ?thesis by simp
    qed
  qed
  from m have "length rest < length (c # cs)"
    by (auto simp: match_image_def split: list.splits if_splits dest: alt)
  then show "(rest, c # cs) \<in> measure length" by simp
next
  fix c :: "16 word" and cs :: jsstring
  show "(cs, c # cs) \<in> measure length" by simp
qed

definition reportHeader :: jsstring where
  "reportHeader =
     lit ''# BMW Global Sales Analysis Report (2020-2024)'' @ [0x0A]
     @ lit ''> Generated by AI Multi-Agent System'' @ [0x0A, 0x0A]
     @ lit ''---'' @ [0x0A, 0x0A]"

definition fullMarkdown :: "'n host \<Rightarrow> 'n val \<Rightarrow> js_exn + jsstring" where
  \<comment> \<open>\<open>reportHeader + (data?.markdown_content || "*Report generation pending...*")\<close>\<close>
  "fullMarkdown h d =
     bind_exn (to_string h (or_else h (opt_member d (lit ''markdown_content''))
                              (VStr (lit ''*Report generation pending...*''))))
       (\<lambda>s. Inr (reportHeader @ s))"

definition SynthesisView :: "'n host \<Rightarrow> 'n val \<Rightarrow> js_exn + jsstring" where
  \<comment> \<open>the text given to \<open>ReactMarkdown\<close>\<close>
  "SynthesisView h d = bind_exn (fullMarkdown h d) (\<lambda>s. Inr (strip_images s))"

subsection \<open>The layout: tab badges, error banner and content area\<close>

text \<open>
  \<open>v?.length > 0 && <span>{v.length}</span>\<close>.  An array and a string have a length
  of their own.  An object answers with its own property \<open>length\<close>, if it has one, and
  the engine compares that value with \<open>0\<close> after converting it to a number; the model
  does not evaluate that conversion and returns \<open>BadgeIfPositive\<close> with the value.
\<close>

datatype 'n badge = NoBadge | BadgeCount nat | BadgeIfPositive "'n val"

definition badge :: "'n val \<Rightarrow> 'n badge" where
  "badge v =
     (case v of
        VArr xs \<Rightarrow> if 0 < length xs then BadgeCount (length xs) else NoBadge
      | VStr s \<Rightarrow> if 0 < length s then BadgeCount (length s) else NoBadge
      | VObj kvs \<Rightarrow>
          if has_key kvs ''length'' then BadgeIfPositive (field v (lit ''length'')) else NoBadge
      | _ \<Rightarrow> NoBadge)"

definition tab_badge :: "'n app_state \<Rightarrow> tab \<Rightarrow> 'n badge" where
  "tab_badge st t =
     (case t of
        Pandas \<Rightarrow> badge (opt_member (data st) (lit ''pandas_agent''))
      | Rag \<Rightarrow> badge (opt_member (data st) (lit ''rag_agent''))
      | _ \<Rightarrow> NoBadge)"

definition error_banner :: "'n app_state \<Rightarrow> jsstring option" where
  \<comment> \<open>\<open>error && <div><strong>System Error:</strong> {error}</div>\<close>\<close>
  "error_banner st = (case error st of None \<Rightarrow> None | Some m \<Rightarrow> if m = [] then None else Some m)"

datatype 'n content =
    AwaitingInstructions
  | GeneratingInsights
  | IngestionSection "'n ingestion_view"
  | PandasSection "'n analysis_block section_view"
  | RagSection "'n research_block section_view"
  | SynthesisSection jsstring

definition main_content :: "'n host \<Rightarrow> 'n app_state \<Rightarrow> js_exn + 'n content" where
  "main_content h st =
     (if \<not> truthy h (data st) \<and> \<not> loading st then Inr AwaitingInstructions
      else if loading st then Inr GeneratingInsights
      else case activeTab st of
             Ingestion \<Rightarrow>
               bind_exn (IngestionView h (field (data st) (lit ''ingestion''))) (\<lambda>v. Inr (IngestionSection v))
           | Pandas \<Rightarrow>
               bind_exn (PandasAgentView h (field (data st) (lit ''pandas_agent''))) (\<lambda>v. Inr (PandasSection v))
           | Rag \<Rightarrow>
               bind_exn (RAGAgentView h (field (data st) (lit ''rag_agent''))) (\<lambda>v. Inr (RagSection v))
           | Synthesis \<Rightarrow>
               bind_exn (SynthesisView h (field (data st) (lit ''synthesis''))) (\<lambda>v. Inr (SynthesisSection v)))"

section \<open>What React does with the elements\<close>

text \<open>
  A view function only builds elements; React then renders them.  An expression in braces
  is a child of its element.  React renders a string as it is and a number in decimal,
  renders nothing for \<open>null\<close>, \<open>undefined\<close> and the booleans, renders the entries of an
  array one after the other, and throws ("Objects are not valid as a React child") when
  the child is any other object.  The application has no error boundary, so this
  exception, like one thrown by the view function itself, leaves nothing of the page.
  \<open>render_failure\<close> tells the two apart.
\<close>

datatype render_failure = ViewThrew js_exn | ObjectAsChild

definition then_render :: "render_failure + 'a \<Rightarrow> ('a \<Rightarrow> render_failure + 'b) \<Rightarrow> render_failure + 'b" where
  "then_render r f = (case r of Inl e \<Rightarrow> Inl e | Inr x \<Rightarrow> f x)"

definition thrown :: "js_exn + 'a \<Rightarrow> render_failure + 'a" where
  "thrown r = (case r of Inl e \<Rightarrow> Inl (ViewThrew e) | Inr x \<Rightarrow> Inr x)"

text \<open>The text that a child in braces contributes to the page.\<close>

fun child_text :: "'n host \<Rightarrow> 'n val \<Rightarrow> render_failure + jsstring"
and children_text :: "'n host \<Rightarrow> 'n val list \<Rightarrow> render_failure + jsstring" where
  "child_text h VUndefined = Inr []"
| "child_text h VNull = Inr []"
| "child_text h (VBool b) = Inr []"
| "child_text h (VNum n) = Inr (num_text h n)"
| "child_text h (VStr s) = Inr s"
| "child_text h (VArr xs) = children_text h xs"
| "child_text h (VObj kvs) = Inl ObjectAsChild"
| "children_text h [] = Inr []"
| "children_text h (x # xs) =
     then_render (child_text h x) (\<lambda>a.
     then_render (children_text h xs) (\<lambda>b. Inr (a @ b)))"

text \<open>\<open>each f xs\<close> applies \<open>f\<close> to the entries from left to right and stops at the first failure.\<close>

fun each :: "('a \<Rightarrow> 'e + 'b) \<Rightarrow> 'a list \<Rightarrow> 'e + 'b list" where
  "each f [] = Inr []"
| "each f (x # xs) =
     (case f x of
        Inl e \<Rightarrow> Inl e
      | Inr y \<Rightarrow> (case each f xs of Inl e \<Rightarrow> Inl e | Inr ys \<Rightarrow> Inr (y # ys)))"

text \<open>
  The ingestion view on the page: the text of the status badge, of the total, of each
  column chip, and the remainder label.  \<open>key={c}\<close> makes React convert every column to a
  string (\<open>'' + key\<close>) when the chip is created, still inside the view function; the total
  is a string or the number \<open>0\<close>.
\<close>

record ingestion_shown =
  status_text :: jsstring
  total_text :: jsstring
  chip_texts :: "jsstring list"
  more_text :: "jsstring option"

definition render_ingestion :: "'n host \<Rightarrow> 'n val \<Rightarrow> render_failure + ingestion_shown" where
  "render_ingestion h d =
     then_render (thrown (IngestionView h d)) (\<lambda>v.
     then_render (thrown (each (to_string h) (column_chips v))) (\<lambda>keys.
     then_render (child_text h (status_badge v)) (\<lambda>st.
     then_render (each (child_text h) (column_chips v)) (\<lambda>chips.
       Inr \<lparr>status_text = st,
            total_text = (case total_records v of TotalText s \<Rightarrow> s | TotalZero \<Rightarrow> lit ''0''),
            chip_texts = chips, more_text = more_columns v\<rparr>))))"

text \<open>
  A step block on the page.  Where \<open>item.insight && ...\<close> gave the falsy insight itself,
  that value is the child: \<open>Bare\<close> holds its text (nothing, or the digits of a zero) and
  there is no findings block; \<open>Block\<close> is the findings block with the text of the insight.
\<close>

datatype shown_insight = Bare jsstring | Block jsstring

definition render_conditional :: "'n host \<Rightarrow> 'n conditional \<Rightarrow> render_failure + shown_insight" where
  "render_conditional h c =
     (case c of
        Skipped v \<Rightarrow> then_render (child_text h v) (\<lambda>t. Inr (Bare t))
      | Shown v \<Rightarrow> then_render (child_text h v) (\<lambda>t. Inr (Block t)))"

record analysis_shown =
  shown_number :: nat
  shown_label :: jsstring
  shown_task :: jsstring
  shown_code :: jsstring
  shown_plot :: plot
  shown_findings :: shown_insight

record research_shown =
  shown_research_number :: nat
  shown_research_label :: jsstring
  shown_question :: jsstring
  shown_context :: jsstring
  shown_research_insight :: shown_insight

definition render_analysis_block :: "'n host \<Rightarrow> 'n analysis_block \<Rightarrow> render_failure + analysis_shown" where
  "render_analysis_block h b =
     then_render (child_text h (step_label b)) (\<lambda>l.
     then_render (child_text h (task b)) (\<lambda>q.
     then_render (child_text h (code_text b)) (\<lambda>c.
     then_render (render_conditional h (key_findings b)) (\<lambda>f.
       Inr \<lparr>shown_number = step_number b, shown_label = l, shown_task = q, shown_code = c,
            shown_plot = plot_area b, shown_findings = f\<rparr>))))"

definition render_research_block :: "'n host \<Rightarrow> 'n research_block \<Rightarrow> render_failure + research_shown" where
  "render_research_block h b =
     then_render (child_text h (research_label b)) (\<lambda>l.
     then_render (child_text h (question b)) (\<lambda>q.
     then_render (child_text h (context_text b)) (\<lambda>c.
     then_render (render_conditional h (research_insight b)) (\<lambda>f.
       Inr \<lparr>shown_research_number = research_number b, shown_research_label = l,
            shown_question = q, shown_context = c, shown_research_insight = f\<rparr>))))"

definition render_blocks :: "('b \<Rightarrow> render_failure + 'c) \<Rightarrow> js_exn + 'b section_view
    \<Rightarrow> render_failure + 'c section_view" where
  "render_blocks f r =
     then_render (thrown r) (\<lambda>view.
       case view of
         Placeholder s \<Rightarrow> Inr (Placeholder s)
       | Blocks bs \<Rightarrow> then_render (each f bs) (\<lambda>rs. Inr (Blocks rs)))"

definition render_pandas :: "'n host \<Rightarrow> 'n val \<Rightarrow> render_failure + analysis_shown section_view" where
  "render_pandas h d = render_blocks (render_analysis_block h) (PandasAgentView h d)"

definition render_rag :: "'n host \<Rightarrow> 'n val \<Rightarrow> render_failure + research_shown section_view" where
  "render_rag h d = render_blocks (render_research_block h) (RAGAgentView h d)"

text \<open>The final report gives \<open>ReactMarkdown\<close> one string, which is always a valid child.\<close>

definition render_synthesis :: "'n host \<Rightarrow> 'n val \<Rightarrow> render_failure + jsstring" where
  "render_synthesis h d = thrown (SynthesisView h d)"

section \<open>Auxiliary notions for the statements\<close>

text \<open>The text of an inline image directive with the given alt text and source.\<close>

definition image_directive :: "jsstring \<Rightarrow> jsstring \<Rightarrow> jsstring" where
  "image_directive alt src = lit ''!['' @ alt @ lit '']('' @ src @ lit '')''"

text \<open>
  A value that is an object; a field that is absent or holds a string; a value that is
  no array and no object.
\<close>

definition is_object :: "'n val \<Rightarrow> bool" where
  "is_object v = (case v of VObj kvs \<Rightarrow> True | _ \<Rightarrow> False)"

definition optional_text :: "'n val \<Rightarrow> bool" where
  "optional_text v = (case v of VUndefined \<Rightarrow> True | VStr s \<Rightarrow> True | _ \<Rightarrow> False)"

definition scalar :: "'n val \<Rightarrow> bool" where
  "scalar v = (case v of VArr xs \<Rightarrow> False | VObj kvs \<Rightarrow> False | _ \<Rightarrow> True)"

text \<open>
  A host to run the definitions on concrete documents: an engine with the messages of V8
  whose numbers are the unsigned 32-bit integers, printed in decimal, and grouped by
  thousands as the \<open>en-US\<close> locale does.
\<close>

fun group3 :: "jsstring \<Rightarrow> jsstring" where
  "group3 (a # b # c # d # rest) = a # b # c # 0x2C # group3 (d # rest)"
| "group3 ds = ds"

definition v8_message :: "js_exn \<Rightarrow> jsstring" where
  "v8_message e =
     (case e of
        ReadOfNull k \<Rightarrow>
          lit ''Cannot read properties of null (reading '' @ [0x27] @ k @ [0x27] @ lit '')''
      | ReadOfUndefined k \<Rightarrow>
          lit ''Cannot read properties of undefined (reading '' @ [0x27] @ k @ [0x27] @ lit '')''
      | NotAFunction f \<Rightarrow> f @ lit '' is not a function''
      | NotPrimitive \<Rightarrow> lit ''Cannot convert object to primitive value'')"

definition v8_host :: "32 word host" where
  "v8_host =
     \<lparr>num_truthy = (\<lambda>n. n \<noteq> 0),
      num_text = (\<lambda>n. decimal (unat n)),
      num_locale_text = (\<lambda>n. rev (group3 (rev (decimal (unat n))))),
      exn_text = v8_message\<rparr>"

text \<open>
  Whether a computation returned.  A value is a valid child when no object is in it, can be
  converted to a string when no object in it has a member \<open>toString\<close> of its own (which, in
  a parsed document, is never a function), and can be printed by \<open>toLocaleString\<close> when
  no object in it has a member \<open>toLocaleString\<close> or \<open>toString\<close> of its own.
\<close>

definition returns :: "'e + 'a \<Rightarrow> bool" where
  "returns r = (case r of Inl e \<Rightarrow> False | Inr x \<Rightarrow> True)"

fun valid_child :: "'n val \<Rightarrow> bool" where
  "valid_child (VObj kvs) = False"
| "valid_child (VArr xs) = (\<forall>x\<in>set xs. valid_child x)"
| "valid_child v = True"

fun printable :: "'n val \<Rightarrow> bool" where
  "printable (VObj kvs) = (\<not> has_key kvs ''toString'')"
| "printable (VArr xs) = (\<forall>x\<in>set xs. printable x)"
| "printable v = True"

fun localizable :: "'n val \<Rightarrow> bool" where
  "localizable (VObj kvs) = (\<not> has_key kvs ''toLocaleString'' \<and> \<not> has_key kvs ''toString'')"
| "localizable (VArr xs) = (\<forall>x\<in>set xs. localizable x)"
| "localizable v = True"

text \<open>
  \<open>has_pair a b s\<close>: the code unit \<open>a\<close> stands directly before \<open>b\<close> somewhere in \<open>s\<close>.
  \<open>closes_early alt\<close>: the alt text contains \<open>](\<close> and, later, \<open>)\<close>.  A directive is plain
  when neither its alt text nor its source contains a line terminator, its source contains
  no \<open>)\<close> and its alt text does not close early.
\<close>

fun has_pair :: "16 word \<Rightarrow> 16 word \<Rightarrow> jsstring \<Rightarrow> bool" where
  "has_pair a b (x # y # zs) = (x = a \<and> y = b \<or> has_pair a b (y # zs))"
| "has_pair a b zs = False"

fun closes_early :: "jsstring \<Rightarrow> bool" where
  "closes_early (x # y # zs) = (x = 0x5D \<and> y = 0x28 \<and> 0x29 \<in> set zs \<or> closes_early (y # zs))"
| "closes_early zs = False"

definition plain_directive :: "jsstring \<Rightarrow> jsstring \<Rightarrow> bool" where
  "plain_directive alt src =
     (\<not> list_ex is_line_terminator alt \<and> \<not> list_ex is_line_terminator src
      \<and> 0x29 \<notin> set src \<and> \<not> closes_early alt)"

text \<open>
  A text made of segments, each some text followed by an image directive, and a tail; and
  the same text with the directives left out.
\<close>

fun with_directives :: "(jsstring \<times> jsstring \<times> jsstring) list \<Rightarrow> jsstring \<Rightarrow> jsstring" where
  "with_directives [] tail = tail"
| "with_directives ((pre, alt, src) # segs) tail =
     pre @ image_directive alt src @ with_directives segs tail"

fun without_directives :: "(jsstring \<times> jsstring \<times> jsstring) list \<Rightarrow> jsstring \<Rightarrow> jsstring" where
  "without_directives [] tail = tail"
| "without_directives ((pre, alt, src) # segs) tail = pre @ without_directives segs tail"

section \<open>Basic facts\<close>

lemma lit_simps [simp]: "lit [] = []" "lit (c # cs) = of_char c # lit cs"
  by (simp_all add: lit_def)

lemma bind_exn_simps [simp]:
  "bind_exn (Inl e) f = Inl e" "bind_exn (Inr x) f = f x"
  by (simp_all add: bind_exn_def)

lemma field_text_is_object: "field result k = VStr m \<Longrightarrow> \<exists>kvs. result = VObj kvs"
  by (cases result) simp_all

lemma resolve_domain_failure:
  assumes "field result (lit ''error'') = VStr msg" and "msg \<noteq> []"
  shows "resolve h (Parsed result) st = st\<lparr>error := Some msg, loading := False\<rparr>"
proof -
  from assms(1) obtain kvs where "result = VObj kvs"
    using field_text_is_object by blast
  with assms show ?thesis
    by (simp add: resolve_def failed_def)
qed

lemma resolve_success:
  assumes "\<not> nullish result" and "\<not> truthy h (field result (lit ''error''))"
  shows "resolve h (Parsed result) st = st\<lparr>data := result, activeTab := Synthesis, loading := False\<rparr>"
  using assms by (cases result) (simp_all add: resolve_def nullish_def)

lemma member_Inr: "member item k = Inr v \<Longrightarrow> \<not> nullish item \<and> v = field item k"
  by (cases item) (auto simp: nullish_def)

lemma member_not_nullish: "\<not> nullish item \<Longrightarrow> member item k = Inr (field item k)"
  by (cases item) (auto simp: nullish_def)

lemma or_else_undefined [simp]: "or_else h VUndefined d = d"
  by (simp add: or_else_def)

lemma plot_of_absent: "field item (lit ''image'') = VUndefined
  \<Longrightarrow> plot_of h item = Inr (NoImage (lit ''No visualization generated''))"
  by (simp add: plot_of_def del: lit_simps)

lemma plot_of_optional_text:
  assumes "optional_text (field item (lit ''image''))" "optional_text (field item (lit ''section''))"
  shows "\<exists>p. plot_of h item = Inr p"
proof (cases "field item (lit ''image'')")
  case (VStr s)
  with assms(2) show ?thesis
    by (cases "field item (lit ''section'')")
       (simp_all add: plot_of_def optional_text_def del: lit_simps)
qed (use assms(1) in \<open>simp_all add: plot_of_def optional_text_def del: lit_simps\<close>)

lemma analysis_block_Inr:
  assumes "analysis_block h i item = Inr b"
  shows "\<not> nullish item \<and> step_number b = i + 1
    \<and> step_label b = or_else h (field item (lit ''section'')) (VStr (lit ''Analysis Step '' @ decimal (i + 1)))
    \<and> task b = field item (lit ''query'')
    \<and> code_text b = or_else h (field item (lit ''code'')) (VStr (lit ''# No code generated''))
    \<and> plot_of h item = Inr (plot_area b)
    \<and> key_findings b = when_truthy h (field item (lit ''insight''))"
proof -
  from assms obtain lbl where s: "member item (lit ''section'') = Inr lbl"
    by (cases "member item (lit ''section'')") (simp_all add: analysis_block_def del: lit_simps)
  then have n: "\<not> nullish item" "lbl = field item (lit ''section'')"
    using member_Inr by blast+
  from assms s obtain p where p: "plot_of h item = Inr p"
    by (cases "plot_of h item") (simp_all add: analysis_block_def del: lit_simps)
  from assms s p n show ?thesis
    by (auto simp add: analysis_block_def simp del: lit_simps)
qed


lemma research_block_Inr:
  assumes "research_block h i item = Inr b"
  shows "\<not> nullish item \<and> research_number b = i + 1
    \<and> research_label b = or_else h (field item (lit ''section'')) (VStr (lit ''Research Step '' @ decimal (i + 1)))
    \<and> question b = field item (lit ''query'')
    \<and> context_text b = or_else h (field item (lit ''context'')) (VStr (lit ''No context found.''))
    \<and> research_insight b = when_truthy h (field item (lit ''insight''))"
proof -
  from assms obtain lbl where s: "member item (lit ''section'') = Inr lbl"
    by (cases "member item (lit ''section'')") (simp_all add: research_block_def del: lit_simps)
  then have n: "\<not> nullish item" "lbl = field item (lit ''section'')"
    using member_Inr by blast+
  from assms s n show ?thesis
    by (auto simp add: research_block_def simp del: lit_simps)
qed

lemma analysis_block_total:
  assumes "\<not> nullish item" "\<exists>p. plot_of h item = Inr p"
  shows "\<exists>b. analysis_block h i item = Inr b"
  using assms by (auto simp add: analysis_block_def member_not_nullish simp del: lit_simps)

lemma research_block_total:
  assumes "\<not> nullish item"
  shows "\<exists>b. research_block h i item = Inr b"
  using assms by (auto simp add: research_block_def member_not_nullish simp del: lit_simps)

lemma when_truthy_Shown: "when_truthy h v = Shown w \<Longrightarrow> w = v \<and> truthy h v"
  by (auto simp: when_truthy_def split: if_splits)

lemma when_truthy_undefined [simp]: "when_truthy h VUndefined = Skipped VUndefined"
  by (simp add: when_truthy_def)

lemma trim_split:
  "\<exists>pre post. t = pre @ trim t @ post \<and> list_all trimmable pre \<and> list_all trimmable post"
proof -
  let ?d = "dropWhile trimmable t"
  have "t = takeWhile trimmable t @ ?d" by simp
  moreover have "rev (rev ?d) = rev (takeWhile trimmable (rev ?d) @ dropWhile trimmable (rev ?d))"
    by (simp only: takeWhile_dropWhile_id)
  then have "?d = trim t @ rev (takeWhile trimmable (rev ?d))"
    by (simp only: rev_rev_ident rev_append trim_def)
  ultimately have "t = takeWhile trimmable t @ trim t @ rev (takeWhile trimmable (rev ?d))"
    by simp
  moreover have "list_all trimmable (takeWhile trimmable t)"
    by (simp add: list_all_iff) (meson set_takeWhileD)
  moreover have "list_all trimmable (rev (takeWhile trimmable (rev ?d)))"
    by (simp add: list_all_iff) (meson set_takeWhileD)
  ultimately show ?thesis by blast
qed

lemma trim_ends:
  assumes "trim t \<noteq> []"
  shows "\<not> trimmable (hd (trim t)) \<and> \<not> trimmable (last (trim t))"
proof -
  let ?d = "dropWhile trimmable t"
  let ?e = "dropWhile trimmable (rev ?d)"
  from assms have e: "?e \<noteq> []" by (simp add: trim_def)
  then have "\<not> trimmable (hd ?e)" by (rule hd_dropWhile)
  moreover have "last (trim t) = hd ?e" using e by (simp add: trim_def last_rev)
  ultimately have l: "\<not> trimmable (last (trim t))" by simp
  have d: "?d \<noteq> []"
  proof
    assume a: "?d = []"
    have "?e = dropWhile trimmable (rev [])" by (simp only: a)
    with e show False by simp
  qed
  then have nd: "\<not> trimmable (hd ?d)" by (rule hd_dropWhile)
  have "hd (trim t) = last ?e" using e by (simp add: trim_def hd_rev)
  also have "\<dots> = last (rev ?d)"
  proof -
    have "rev ?d = takeWhile trimmable (rev ?d) @ ?e" by simp
    then show ?thesis using e by (metis last_appendR)
  qed
  also have "\<dots> = hd ?d" using d by (simp add: last_rev)
  finally show ?thesis using nd l by simp
qed

lemma trim_blank:
  assumes "list_all trimmable t"
  shows "trim t = []"
proof -
  from assms have "dropWhile trimmable t = []" by (simp add: list_all_iff)
  then have "trim t = rev (dropWhile trimmable (rev []))" by (simp only: trim_def)
  then show ?thesis by simp
qed

lemma trimmable_space: "trimmable 0x20"
  by (simp add: trimmable_def is_white_space_def)

lemma match_image_no_bang: "c \<noteq> 0x21 \<Longrightarrow> match_image (c # cs) = None"
  by (simp add: match_image_def split: list.splits)

lemma strip_images_prefix:
  "0x21 \<notin> set pre \<Longrightarrow> strip_images (pre @ s) = pre @ strip_images s"
  by (induction pre) (auto simp: match_image_no_bang)

lemma strip_images_no_bang: "0x21 \<notin> set s \<Longrightarrow> strip_images s = s"
  using strip_images_prefix [of s "[]"] by simp

lemma src_lazy_simple:
  "0x29 \<notin> set src \<Longrightarrow> \<not> list_ex is_line_terminator src
   \<Longrightarrow> src_lazy (src @ 0x29 # post) = Some post"
  by (induction src) auto

lemma alt_lazy_simple:
  "0x5D \<notin> set alt \<Longrightarrow> \<not> list_ex is_line_terminator alt
   \<Longrightarrow> 0x29 \<notin> set src \<Longrightarrow> \<not> list_ex is_line_terminator src
   \<Longrightarrow> alt_lazy (alt @ 0x5D # 0x28 # src @ 0x29 # post) = Some post"
  by (induction alt) (auto simp: src_lazy_simple)

lemma strip_images_directive:
  assumes "0x5D \<notin> set alt" "\<not> list_ex is_line_terminator alt"
    and "0x29 \<notin> set src" "\<not> list_ex is_line_terminator src"
  shows "strip_images (image_directive alt src @ post) = strip_images post"
  using alt_lazy_simple [OF assms, of post]
  by (simp add: image_directive_def match_image_def)

lemma header_no_bang: "0x21 \<notin> set reportHeader"
  by (simp add: reportHeader_def)

lemma fullMarkdown_text:
  assumes "opt_member d (lit ''markdown_content'') = VStr c"
  shows "fullMarkdown h d
         = Inr (reportHeader @ (if c = [] then lit ''*Report generation pending...*'' else c))"
  using assms by (simp add: fullMarkdown_def or_else_def del: lit_simps)

lemma fullMarkdown_absent:
  assumes "nullish (opt_member d (lit ''markdown_content''))"
  shows "fullMarkdown h d = Inr (reportHeader @ lit ''*Report generation pending...*'')"
  using assms by (auto simp add: fullMarkdown_def or_else_def nullish_def simp del: lit_simps)

lemma placeholder_no_bang: "0x21 \<notin> set (lit ''*Report generation pending...*'')"
  by simp

lemma map_steps_Inr:
  "map_steps f k xs = Inr bs \<Longrightarrow>
     length bs = length xs \<and> (\<forall>i<length xs. f (k + i) (xs ! i) = Inr (bs ! i))"
proof (induction xs arbitrary: k bs)
  case Nil
  then show ?case by simp
next
  case (Cons x xs)
  from Cons.prems obtain b where b: "f k x = Inr b"
    by (cases "f k x") simp_all
  with Cons.prems obtain bs' where bs': "map_steps f (k + 1) xs = Inr bs'"
    by (cases "map_steps f (k + 1) xs") simp_all
  with b Cons.prems have bs: "bs = b # bs'" by simp
  from Cons.IH [OF bs'] have len: "length bs' = length xs"
    and nth: "\<forall>i<length xs. f (k + 1 + i) (xs ! i) = Inr (bs' ! i)" by simp_all
  have "f (k + i) ((x # xs) ! i) = Inr (bs ! i)" if "i < length (x # xs)" for i
  proof (cases i)
    case 0
    with b bs show ?thesis by simp
  next
    case (Suc j)
    with that nth bs show ?thesis by simp
  qed
  with len bs show ?case by simp
qed

lemma map_steps_total:
  "(\<forall>x\<in>set xs. \<forall>i. \<exists>b. f i x = Inr b) \<Longrightarrow> \<exists>bs. map_steps f k xs = Inr bs"
proof (induction xs arbitrary: k)
  case Nil
  then show ?case by simp
next
  case (Cons x xs)
  then obtain b where "f k x = Inr b" by (meson list.set_intros(1))
  moreover from Cons obtain bs where "map_steps f (k + 1) xs = Inr bs"
    by (meson list.set_intros(2))
  ultimately show ?case by simp
qed

lemma PandasAgentView_steps:
  "steps \<noteq> [] \<Longrightarrow> PandasAgentView h (VArr steps)
     = bind_exn (map_steps (analysis_block h) 0 steps) (\<lambda>bs. Inr (Blocks bs))"
  by (simp add: PandasAgentView_def is_array_def elements_def)

lemma RAGAgentView_steps:
  "steps \<noteq> [] \<Longrightarrow> RAGAgentView h (VArr steps)
     = bind_exn (map_steps (research_block h) 0 steps) (\<lambda>bs. Inr (Blocks bs))"
  by (simp add: RAGAgentView_def is_array_def elements_def)

lemma decimal_digit: "n < 10 \<Longrightarrow> decimal n = [of_nat (48 + n)]"
  by (simp add: decimal.simps)

lemma total_records_scalar:
  assumes "scalar (opt_member d (lit ''row_count''))"
  shows "\<exists>t. total_records_of h d = Inr t"
  using assms
  by (cases "opt_member d (lit ''row_count'')")
     (simp_all add: total_records_of_def scalar_def nullish_def Let_def del: lit_simps)

lemma opt_member_non_object: "\<not> is_object d \<Longrightarrow> opt_member d k = VUndefined"
  by (cases d) (simp_all add: opt_member_def is_object_def)

lemma opt_member_object: "is_object d \<Longrightarrow> opt_member d k = field d k"
  by (cases d) (simp_all add: opt_member_def is_object_def nullish_def)

lemma is_object_not_nullish: "is_object d \<Longrightarrow> \<not> nullish d"
  by (cases d) (simp_all add: is_object_def nullish_def)

lemma SynthesisView_pending:
  "nullish (opt_member d (lit ''markdown_content'')) \<or> opt_member d (lit ''markdown_content'') = VStr []
   \<Longrightarrow> SynthesisView h d = Inr (reportHeader @ lit ''*Report generation pending...*'')"
proof -
  assume "nullish (opt_member d (lit ''markdown_content'')) \<or> opt_member d (lit ''markdown_content'') = VStr []"
  then have "fullMarkdown h d = Inr (reportHeader @ lit ''*Report generation pending...*'')"
    using fullMarkdown_absent [of d h] fullMarkdown_text [of d "[]" h] by auto
  then show ?thesis
    using header_no_bang placeholder_no_bang
    by (simp add: SynthesisView_def strip_images_prefix strip_images_no_bang del: lit_simps)
qed

lemma SynthesisView_optional_text:
  assumes "optional_text (opt_member d (lit ''markdown_content''))"
  shows "\<exists>s. SynthesisView h d = Inr s"
proof (cases "opt_member d (lit ''markdown_content'')")
  case VUndefined
  then show ?thesis using SynthesisView_pending [of d h] by (simp add: nullish_def del: lit_simps)
next
  case (VStr c)
  then show ?thesis
    using fullMarkdown_text [of d c h] by (simp add: SynthesisView_def del: lit_simps)
qed (use assms in \<open>simp_all add: optional_text_def del: lit_simps\<close>)

lemma IngestionView_defaults:
  assumes "\<not> is_object d"
  shows "IngestionView h d = Inr \<lparr>status_badge = VStr (lit ''Ready''), total_records = TotalZero,
           column_chips = [], more_columns = None\<rparr>"
  using assms
  by (simp add: IngestionView_def total_records_of_def columns_of_def opt_member_non_object
      nullish_def del: lit_simps)

lemma IngestionView_total:
  assumes "scalar (opt_member d (lit ''row_count''))"
    and "nullish (opt_member d (lit ''columns'')) \<or> is_array (opt_member d (lit ''columns''))"
  shows "\<exists>v. IngestionView h d = Inr v"
proof -
  from assms(1) obtain t where "total_records_of h d = Inr t"
    using total_records_scalar by blast
  moreover from assms(2) obtain c where "columns_of d = Inr c"
    by (cases "opt_member d (lit ''columns'')")
       (auto simp add: columns_of_def nullish_def is_array_def simp del: lit_simps)
  ultimately show ?thesis
    by (cases c) (simp add: IngestionView_def del: lit_simps)
qed

lemma step_views_placeholder:
  assumes "\<not> is_array d \<or> elements d = []"
  shows "PandasAgentView h d = Inr (Placeholder (lit ''No quantitative analysis performed in this step.''))"
    and "RAGAgentView h d = Inr (Placeholder (lit ''No qualitative research performed in this step.''))"
  using assms by (auto simp add: PandasAgentView_def RAGAgentView_def simp del: lit_simps)

lemma PandasAgentView_total:
  assumes "\<forall>item\<in>set steps. \<not> nullish item \<and> optional_text (field item (lit ''image''))
                \<and> optional_text (field item (lit ''section''))"
  shows "\<exists>v. PandasAgentView h (VArr steps) = Inr v"
proof (cases "steps = []")
  case True
  then show ?thesis using step_views_placeholder(1) [of "VArr steps" h] by (simp add: elements_def)
next
  case False
  from assms have "\<forall>x\<in>set steps. \<forall>i. \<exists>b. analysis_block h i x = Inr b"
    using analysis_block_total plot_of_optional_text by blast
  from map_steps_total [OF this] obtain bs where "map_steps (analysis_block h) 0 steps = Inr bs"
    by blast
  with False show ?thesis by (simp add: PandasAgentView_steps)
qed

lemma RAGAgentView_total:
  assumes "\<forall>item\<in>set steps. \<not> nullish item"
  shows "\<exists>v. RAGAgentView h (VArr steps) = Inr v"
proof (cases "steps = []")
  case True
  then show ?thesis using step_views_placeholder(2) [of "VArr steps" h] by (simp add: elements_def)
next
  case False
  from assms have "\<forall>x\<in>set steps. \<forall>i. \<exists>b. research_block h i x = Inr b"
    using research_block_total by blast
  from map_steps_total [OF this] obtain bs where "map_steps (research_block h) 0 steps = Inr bs"
    by blast
  with False show ?thesis by (simp add: RAGAgentView_steps)
qed

subsection \<open>Facts about rendering\<close>

lemma returns_simps [simp]: "returns (Inr x)" "\<not> returns (Inl e)"
  by (simp_all add: returns_def)

lemma returns_Ex: "returns r \<longleftrightarrow> (\<exists>x. r = Inr x)"
  by (cases r) simp_all

lemma then_render_simps [simp]:
  "then_render (Inl e) f = Inl e" "then_render (Inr x) f = f x"
  by (simp_all add: then_render_def)

lemma thrown_simps [simp]: "thrown (Inl e) = Inl (ViewThrew e)" "thrown (Inr x) = Inr x"
  by (simp_all add: thrown_def)

lemma returns_thrown [simp]: "returns (thrown r) = returns r"
  by (cases r) simp_all

lemma returns_then: "returns (then_render r f) \<longleftrightarrow> (\<exists>x. r = Inr x \<and> returns (f x))"
  by (cases r) simp_all

lemma child_text_valid:
  "returns (child_text h v) = valid_child v"
  "returns (children_text h xs) = (\<forall>x\<in>set xs. valid_child x)"
proof (induction h v and h xs rule: child_text_children_text.induct)
  case (9 h x xs)
  show ?case
  proof (cases "child_text h x")
    case (Inl e)
    with 9(1) have "\<not> valid_child x" by simp
    with Inl show ?thesis by simp
  next
    case (Inr a)
    with 9(1) have x: "valid_child x" by simp
    with 9(2) Inr show ?thesis
      by (cases "children_text h xs") simp_all
  qed
qed simp_all

lemma to_string_printable:
  "returns (to_string h v) = printable v"
  "returns (join_texts h xs) = (\<forall>x\<in>set xs. printable x)"
proof (induction h v and h xs rule: to_string_join_texts.induct)
  case (9 h x xs)
  show ?case
  proof (cases "nullish x")
    case True
    then have "printable x" by (auto simp: nullish_def)
    with True 9 show ?thesis
      by (cases "join_texts h xs") (auto simp: returns_Ex)
  next
    case False
    with 9 show ?thesis
      by (cases "to_string h x"; cases "join_texts h xs") (auto simp: returns_Ex)
  qed
qed simp_all

lemma to_locale_localizable:
  "\<not> nullish v \<Longrightarrow> returns (to_locale_string h v) = localizable v"
  "returns (join_locale h xs) = (\<forall>x\<in>set xs. localizable x)"
proof (induction h v and h xs rule: to_locale_string_join_locale.induct)
  case (9 h x xs)
  show ?case
  proof (cases "nullish x")
    case True
    then have "localizable x" by (auto simp: nullish_def)
    with True 9 show ?thesis
      by (cases "join_locale h xs") (auto simp: returns_Ex)
  next
    case False
    with 9 show ?thesis
      by (cases "to_locale_string h x"; cases "join_locale h xs") (auto simp: returns_Ex)
  qed
qed (simp_all add: nullish_def)

lemma valid_child_printable: "valid_child v \<Longrightarrow> printable v"
  by (induction v rule: valid_child.induct) auto

lemma falsy_valid_child: "\<not> truthy h v \<Longrightarrow> valid_child v"
  by (cases v) simp_all

lemma valid_or_else [simp]: "valid_child (or_else h v (VStr s)) = valid_child v"
  using falsy_valid_child [of h v] by (auto simp: or_else_def)

lemma each_returns: "returns (each f xs) = (\<forall>x\<in>set xs. returns (f x))"
  by (induction xs) (auto simp: returns_Ex split: sum.splits)

lemma each_Inr:
  "each f xs = Inr ys \<Longrightarrow> length ys = length xs \<and> (\<forall>i<length xs. f (xs ! i) = Inr (ys ! i))"
proof (induction xs arbitrary: ys)
  case Nil
  then show ?case by simp
next
  case (Cons x xs)
  from Cons.prems obtain y ys' where y: "f x = Inr y" "each f xs = Inr ys'" "ys = y # ys'"
    by (auto split: sum.splits)
  from Cons.IH [OF y(2)] y show ?case
    by (auto simp: nth_Cons split: nat.splits)
qed


lemma localizable_nullish: "nullish v \<Longrightarrow> localizable v"
  by (auto simp: nullish_def)

lemma total_records_returns:
  "returns (total_records_of h d) = localizable (opt_member d (lit ''row_count''))"
proof (cases "nullish (opt_member d (lit ''row_count''))")
  case True
  then show ?thesis by (simp add: total_records_of_def localizable_nullish del: lit_simps)
next
  case False
  then show ?thesis
    using to_locale_localizable(1) [OF False, of h]
    by (cases "to_locale_string h (opt_member d (lit ''row_count''))")
       (simp_all add: total_records_of_def Let_def del: lit_simps)
qed

lemma total_records_absent:
  "nullish (opt_member d (lit ''row_count'')) \<Longrightarrow> total_records_of h d = Inr TotalZero"
  by (simp add: total_records_of_def del: lit_simps)

lemma columns_of_Inr:
  "columns_of d = Inr (chips, ind) \<Longrightarrow>
     (nullish (opt_member d (lit ''columns'')) \<or> is_array (opt_member d (lit ''columns'')))
   \<and> chips = take 6 (elements (opt_member d (lit ''columns'')))
   \<and> (nullish (opt_member d (lit ''columns'')) \<longrightarrow> ind = None)"
  by (cases "opt_member d (lit ''columns'')")
     (auto simp add: columns_of_def nullish_def is_array_def elements_def simp del: lit_simps)

lemma columns_of_returns:
  "returns (columns_of d)
   = (nullish (opt_member d (lit ''columns'')) \<or> is_array (opt_member d (lit ''columns'')))"
  by (cases "opt_member d (lit ''columns'')")
     (auto simp add: columns_of_def nullish_def is_array_def simp del: lit_simps)

lemma IngestionView_Inr:
  "IngestionView h d = Inr v \<longleftrightarrow>
     (\<exists>t chips ind. total_records_of h d = Inr t \<and> columns_of d = Inr (chips, ind)
        \<and> v = \<lparr>status_badge = or_else h (opt_member d (lit ''status'')) (VStr (lit ''Ready'')),
                total_records = t, column_chips = chips, more_columns = ind\<rparr>)"
  by (cases "total_records_of h d"; cases "columns_of d")
     (auto simp add: IngestionView_def simp del: lit_simps)

lemma render_ingestion_Inr:
  "render_ingestion h d = Inr w \<longleftrightarrow>
     (\<exists>v keys st chips. IngestionView h d = Inr v
        \<and> each (to_string h) (column_chips v) = Inr keys
        \<and> child_text h (status_badge v) = Inr st
        \<and> each (child_text h) (column_chips v) = Inr chips
        \<and> w = \<lparr>status_text = st,
                total_text = (case total_records v of TotalText s \<Rightarrow> s | TotalZero \<Rightarrow> lit ''0''),
                chip_texts = chips, more_text = more_columns v\<rparr>)"
  by (auto simp add: render_ingestion_def then_render_def thrown_def
      split: sum.splits simp del: lit_simps)

lemma render_ingestion_returns:
  "returns (render_ingestion h d) \<longleftrightarrow>
     localizable (opt_member d (lit ''row_count'')) \<and> valid_child (opt_member d (lit ''status''))
     \<and> (nullish (opt_member d (lit ''columns'')) \<or> is_array (opt_member d (lit ''columns'')))
     \<and> (\<forall>c\<in>set (take 6 (elements (opt_member d (lit ''columns'')))). valid_child c)"
  (is "?l \<longleftrightarrow> ?r")
proof
  assume ?l
  then obtain w where "render_ingestion h d = Inr w" by (auto simp: returns_Ex)
  then obtain v where v: "IngestionView h d = Inr v"
    and k: "returns (each (to_string h) (column_chips v))"
    and s: "returns (child_text h (status_badge v))"
    and c: "returns (each (child_text h) (column_chips v))"
    unfolding render_ingestion_Inr by auto
  from v obtain t chips ind where t: "total_records_of h d = Inr t"
    and cs: "columns_of d = Inr (chips, ind)"
    and veq: "v = \<lparr>status_badge = or_else h (opt_member d (lit ''status'')) (VStr (lit ''Ready'')),
                total_records = t, column_chips = chips, more_columns = ind\<rparr>"
    unfolding IngestionView_Inr by blast
  from t have "localizable (opt_member d (lit ''row_count''))"
    using total_records_returns [of h d] by simp
  moreover from s veq have "valid_child (opt_member d (lit ''status''))"
    by (simp add: child_text_valid del: lit_simps)
  moreover note columns_of_Inr [OF cs]
  moreover from c veq have "\<forall>c\<in>set chips. valid_child c"
    by (simp add: each_returns child_text_valid)
  ultimately show ?r by simp
next
  assume r: ?r
  then obtain t where t: "total_records_of h d = Inr t"
    using total_records_returns [of h d] by (auto simp: returns_Ex)
  from r obtain chips ind where cs: "columns_of d = Inr (chips, ind)"
    using columns_of_returns [of d] by (auto simp: returns_Ex)
  let ?v = "\<lparr>status_badge = or_else h (opt_member d (lit ''status'')) (VStr (lit ''Ready'')),
                total_records = t, column_chips = chips, more_columns = ind\<rparr>"
  from t cs have v: "IngestionView h d = Inr ?v" unfolding IngestionView_Inr by blast
  from columns_of_Inr [OF cs] r have ok: "\<forall>c\<in>set chips. valid_child c" by simp
  then have "returns (each (child_text h) chips)"
    by (simp add: each_returns child_text_valid)
  then obtain texts where texts: "each (child_text h) chips = Inr texts"
    unfolding returns_Ex by blast
  from ok have "returns (each (to_string h) chips)"
    by (simp add: each_returns to_string_printable valid_child_printable)
  then obtain keys where keys: "each (to_string h) chips = Inr keys"
    unfolding returns_Ex by blast
  from r have "returns (child_text h (or_else h (opt_member d (lit ''status'')) (VStr (lit ''Ready''))))"
    by (simp add: child_text_valid del: lit_simps)
  then obtain st where st: "child_text h (or_else h (opt_member d (lit ''status'')) (VStr (lit ''Ready''))) = Inr st"
    unfolding returns_Ex by blast
  from v texts keys st have "returns (render_ingestion h d)"
    by (simp add: render_ingestion_def del: lit_simps)
  then show ?l .
qed

lemma child_text_or_else_absent:
  "\<not> truthy h v \<Longrightarrow> child_text h (or_else h v (VStr s)) = Inr s"
  by (simp add: or_else_def)

lemma render_ingestion_absent:
  assumes "render_ingestion h d = Inr w"
  shows "(\<not> truthy h (opt_member d (lit ''status'')) \<longrightarrow> status_text w = lit ''Ready'')
       \<and> (nullish (opt_member d (lit ''row_count'')) \<longrightarrow> total_text w = lit ''0'')
       \<and> (nullish (opt_member d (lit ''columns'')) \<longrightarrow> chip_texts w = [] \<and> more_text w = None)"
proof -
  from assms obtain v st chips where v: "IngestionView h d = Inr v"
    and st: "child_text h (status_badge v) = Inr st"
    and chips: "each (child_text h) (column_chips v) = Inr chips"
    and w: "w = \<lparr>status_text = st,
            total_text = (case total_records v of TotalText s \<Rightarrow> s | TotalZero \<Rightarrow> lit ''0''),
            chip_texts = chips, more_text = more_columns v\<rparr>"
    unfolding render_ingestion_Inr by blast
  from v obtain t cs ind where t: "total_records_of h d = Inr t"
    and cs: "columns_of d = Inr (cs, ind)"
    and veq: "v = \<lparr>status_badge = or_else h (opt_member d (lit ''status'')) (VStr (lit ''Ready'')),
                total_records = t, column_chips = cs, more_columns = ind\<rparr>"
    unfolding IngestionView_Inr by blast
  have "status_text w = lit ''Ready''" if "\<not> truthy h (opt_member d (lit ''status''))"
    using that st veq w child_text_or_else_absent [of h "opt_member d (lit ''status'')" "lit ''Ready''"]
    by (simp del: lit_simps)
  moreover have "total_text w = lit ''0''" if "nullish (opt_member d (lit ''row_count''))"
    using total_records_absent [OF that, of h] t veq w by (simp del: lit_simps)
  moreover have "chip_texts w = [] \<and> more_text w = None" if "nullish (opt_member d (lit ''columns''))"
  proof -
    from that have "elements (opt_member d (lit ''columns'')) = []"
      by (auto simp: nullish_def elements_def)
    with columns_of_Inr [OF cs] that have "cs = []" "ind = None" by simp_all
    with chips veq w show ?thesis by simp
  qed
  ultimately show ?thesis by blast
qed

lemma render_ingestion_defaults:
  assumes "\<not> is_object d"
  shows "render_ingestion h d
         = Inr \<lparr>status_text = lit ''Ready'', total_text = lit ''0'', chip_texts = [], more_text = None\<rparr>"
  using IngestionView_defaults [OF assms, of h]
  by (simp add: render_ingestion_def del: lit_simps)


lemma plot_of_returns:
  "returns (plot_of h item) \<longleftrightarrow>
     (truthy h (field item (lit ''image''))
        \<longrightarrow> printable (field item (lit ''image'')) \<and> printable (field item (lit ''section'')))"
  using to_string_printable(1) [of h "field item (lit ''image'')"]
        to_string_printable(1) [of h "field item (lit ''section'')"]
  by (cases "to_string h (field item (lit ''image''))";
      cases "to_string h (field item (lit ''section''))")
     (simp_all add: plot_of_def del: lit_simps)

lemma analysis_block_returns:
  "returns (analysis_block h i item) \<longleftrightarrow> \<not> nullish item \<and> returns (plot_of h item)"
proof (cases "nullish item")
  case True
  then show ?thesis by (auto simp add: analysis_block_def nullish_def simp del: lit_simps)
next
  case False
  then show ?thesis
    by (cases "plot_of h item")
       (simp_all add: analysis_block_def member_not_nullish del: lit_simps)
qed

lemma research_block_returns: "returns (research_block h i item) \<longleftrightarrow> \<not> nullish item"
proof (cases "nullish item")
  case True
  then show ?thesis by (auto simp add: research_block_def nullish_def simp del: lit_simps)
next
  case False
  then show ?thesis by (simp add: research_block_def member_not_nullish del: lit_simps)
qed

lemma render_conditional_returns [simp]:
  "returns (render_conditional h (when_truthy h v)) = valid_child v"
  using child_text_valid(1) [of h v]
  by (cases "child_text h v") (simp_all add: render_conditional_def when_truthy_def)

lemma render_analysis_block_returns:
  "returns (render_analysis_block h b) \<longleftrightarrow>
     valid_child (step_label b) \<and> valid_child (task b) \<and> valid_child (code_text b)
     \<and> returns (render_conditional h (key_findings b))"
  using child_text_valid(1) [of h "step_label b"] child_text_valid(1) [of h "task b"]
        child_text_valid(1) [of h "code_text b"]
  by (cases "child_text h (step_label b)"; cases "child_text h (task b)";
      cases "child_text h (code_text b)"; cases "render_conditional h (key_findings b)")
     (simp_all add: render_analysis_block_def)

lemma render_research_block_returns:
  "returns (render_research_block h b) \<longleftrightarrow>
     valid_child (research_label b) \<and> valid_child (question b) \<and> valid_child (context_text b)
     \<and> returns (render_conditional h (research_insight b))"
  using child_text_valid(1) [of h "research_label b"] child_text_valid(1) [of h "question b"]
        child_text_valid(1) [of h "context_text b"]
  by (cases "child_text h (research_label b)"; cases "child_text h (question b)";
      cases "child_text h (context_text b)"; cases "render_conditional h (research_insight b)")
     (simp_all add: render_research_block_def)

lemma analysis_step_returns:
  "(\<exists>b. analysis_block h i item = Inr b \<and> returns (render_analysis_block h b)) \<longleftrightarrow>
     \<not> nullish item
     \<and> valid_child (field item (lit ''section'')) \<and> valid_child (field item (lit ''query''))
     \<and> valid_child (field item (lit ''code'')) \<and> valid_child (field item (lit ''insight''))
     \<and> (truthy h (field item (lit ''image'')) \<longrightarrow> printable (field item (lit ''image'')))"
  (is "?l \<longleftrightarrow> ?r")
proof
  assume ?l
  then obtain b where b: "analysis_block h i item = Inr b" and r: "returns (render_analysis_block h b)"
    by blast
  note f = analysis_block_Inr [OF b]
  from b have "returns (analysis_block h i item)" by simp
  then have "returns (plot_of h item)" by (simp add: analysis_block_returns)
  then have p: "truthy h (field item (lit ''image'')) \<longrightarrow> printable (field item (lit ''image''))"
    by (simp only: plot_of_returns) blast
  from f r have "\<not> nullish item
     \<and> valid_child (field item (lit ''section'')) \<and> valid_child (field item (lit ''query''))
     \<and> valid_child (field item (lit ''code'')) \<and> valid_child (field item (lit ''insight''))"
    by (simp add: render_analysis_block_returns del: lit_simps)
  with p show ?r by blast
next
  assume r: ?r
  then have "returns (plot_of h item)"
    by (simp add: plot_of_returns valid_child_printable del: lit_simps)
  with r have "returns (analysis_block h i item)" by (simp add: analysis_block_returns)
  then obtain b where b: "analysis_block h i item = Inr b" unfolding returns_Ex by blast
  note f = analysis_block_Inr [OF b]
  from f r have "returns (render_analysis_block h b)"
    by (simp add: render_analysis_block_returns del: lit_simps)
  with b show ?l by blast
qed

lemma research_step_returns:
  "(\<exists>b. research_block h i item = Inr b \<and> returns (render_research_block h b)) \<longleftrightarrow>
     \<not> nullish item
     \<and> valid_child (field item (lit ''section'')) \<and> valid_child (field item (lit ''query''))
     \<and> valid_child (field item (lit ''context'')) \<and> valid_child (field item (lit ''insight''))"
  (is "?l \<longleftrightarrow> ?r")
proof
  assume ?l
  then obtain b where b: "research_block h i item = Inr b" and r: "returns (render_research_block h b)"
    by blast
  note f = research_block_Inr [OF b]
  with r show ?r by (simp add: render_research_block_returns del: lit_simps)
next
  assume r: ?r
  then have "returns (research_block h i item)" by (simp add: research_block_returns)
  then obtain b where b: "research_block h i item = Inr b" unfolding returns_Ex by blast
  note f = research_block_Inr [OF b]
  from f r have "returns (render_research_block h b)"
    by (simp add: render_research_block_returns del: lit_simps)
  with b show ?l by blast
qed

lemma map_steps_returns:
  "returns (map_steps f k xs) \<longleftrightarrow> (\<forall>i<length xs. returns (f (k + i) (xs ! i)))"
proof (induction xs arbitrary: k)
  case Nil
  then show ?case by simp
next
  case (Cons x xs)
  have "(\<forall>i<length (x # xs). returns (f (k + i) ((x # xs) ! i)))
      \<longleftrightarrow> returns (f k x) \<and> (\<forall>i<length xs. returns (f (k + 1 + i) (xs ! i)))"
    by (auto simp: nth_Cons less_Suc_eq_0_disj split: nat.splits)
  with Cons.IH [of "k + 1"] show ?case
    by (cases "f k x"; cases "map_steps f (k + 1) xs") simp_all
qed

lemma render_blocks_Blocks:
  "returns (render_blocks g (Inr (Blocks bs))) = returns (each g bs)"
  by (cases "each g bs") (simp_all add: render_blocks_def)

lemma render_blocks_steps:
  "returns (render_blocks g (bind_exn (map_steps f 0 xs) (\<lambda>bs. Inr (Blocks bs)))) \<longleftrightarrow>
     (\<forall>i<length xs. \<exists>b. f i (xs ! i) = Inr b \<and> returns (g b))"
  (is "?l \<longleftrightarrow> ?r")
proof
  assume ?l
  then obtain bs where bs: "map_steps f 0 xs = Inr bs"
    and "returns (render_blocks g (Inr (Blocks bs)))"
    by (cases "map_steps f 0 xs") (simp_all add: render_blocks_def)
  then have e: "returns (each g bs)" by (simp only: render_blocks_Blocks)
  note m = map_steps_Inr [OF bs]
  show ?r
  proof (intro allI impI)
    fix i assume i: "i < length xs"
    with m have "f i (xs ! i) = Inr (bs ! i)" by simp
    moreover from i m e have "returns (g (bs ! i))" by (simp add: each_returns)
    ultimately show "\<exists>b. f i (xs ! i) = Inr b \<and> returns (g b)" by blast
  qed
next
  assume r: ?r
  then have "returns (map_steps f 0 xs)" by (auto simp: map_steps_returns)
  then obtain bs where bs: "map_steps f 0 xs = Inr bs" unfolding returns_Ex by blast
  note m = map_steps_Inr [OF bs]
  have "returns (g b)" if "b \<in> set bs" for b
  proof -
    from that obtain i where i: "i < length bs" "b = bs ! i" by (auto simp: in_set_conv_nth)
    with m r obtain b' where "f i (xs ! i) = Inr b'" "returns (g b')" by auto
    with m i show ?thesis by simp
  qed
  then have "returns (each g bs)" by (simp add: each_returns)
  with bs show ?l by (simp add: render_blocks_Blocks)
qed

lemma render_blocks_placeholder [simp]:
  "render_blocks g (Inr (Placeholder s)) = Inr (Placeholder s)"
  by (simp add: render_blocks_def)

lemma render_pandas_returns:
  "returns (render_pandas h (VArr steps)) \<longleftrightarrow>
     (\<forall>item\<in>set steps. \<not> nullish item
        \<and> valid_child (field item (lit ''section'')) \<and> valid_child (field item (lit ''query''))
        \<and> valid_child (field item (lit ''code'')) \<and> valid_child (field item (lit ''insight''))
        \<and> (truthy h (field item (lit ''image'')) \<longrightarrow> printable (field item (lit ''image''))))"
proof (cases "steps = []")
  case True
  then show ?thesis
    using step_views_placeholder(1) [of "VArr steps" h]
    by (simp add: render_pandas_def elements_def del: lit_simps)
next
  case False
  then show ?thesis
    by (simp add: render_pandas_def PandasAgentView_steps render_blocks_steps
        analysis_step_returns all_set_conv_all_nth del: lit_simps)
qed

lemma render_rag_returns:
  "returns (render_rag h (VArr steps)) \<longleftrightarrow>
     (\<forall>item\<in>set steps. \<not> nullish item
        \<and> valid_child (field item (lit ''section'')) \<and> valid_child (field item (lit ''query''))
        \<and> valid_child (field item (lit ''context'')) \<and> valid_child (field item (lit ''insight'')))"
proof (cases "steps = []")
  case True
  then show ?thesis
    using step_views_placeholder(2) [of "VArr steps" h]
    by (simp add: render_rag_def elements_def del: lit_simps)
next
  case False
  then show ?thesis
    by (simp add: render_rag_def RAGAgentView_steps render_blocks_steps
        research_step_returns all_set_conv_all_nth del: lit_simps)
qed

lemma render_synthesis_returns:
  "returns (render_synthesis h d) \<longleftrightarrow> printable (opt_member d (lit ''markdown_content''))"
proof -
  let ?v = "opt_member d (lit ''markdown_content'')"
  have "returns (fullMarkdown h d) = returns (to_string h (or_else h ?v (VStr (lit ''*Report generation pending...*''))))"
    by (cases "to_string h (or_else h ?v (VStr (lit ''*Report generation pending...*'')))")
       (simp_all add: fullMarkdown_def del: lit_simps)
  also have "\<dots> = printable (or_else h ?v (VStr (lit ''*Report generation pending...*'')))"
    by (simp only: to_string_printable)
  also have "\<dots> = printable ?v"
    using falsy_valid_child [of h ?v] valid_child_printable [of ?v]
    by (auto simp add: or_else_def simp del: lit_simps)
  finally have "returns (fullMarkdown h d) = printable ?v" .
  moreover have "returns (SynthesisView h d) = returns (fullMarkdown h d)"
    by (cases "fullMarkdown h d") (simp_all add: SynthesisView_def)
  ultimately show ?thesis by (simp add: render_synthesis_def)
qed


lemma render_blocks_Inr:
  "render_blocks g (bind_exn (map_steps f 0 xs) (\<lambda>bs. Inr (Blocks bs))) = Inr w \<longleftrightarrow>
     (\<exists>cs bs. map_steps f 0 xs = Inr cs \<and> each g cs = Inr bs \<and> w = Blocks bs)"
  by (cases "map_steps f 0 xs")
     (auto simp add: render_blocks_def then_render_def split: sum.splits)

lemma render_analysis_block_Inr:
  "render_analysis_block h b = Inr r \<Longrightarrow>
     child_text h (step_label b) = Inr (shown_label r)
   \<and> child_text h (code_text b) = Inr (shown_code r)
   \<and> render_conditional h (key_findings b) = Inr (shown_findings r)
   \<and> shown_number r = step_number b \<and> shown_plot r = plot_area b"
  by (auto simp add: render_analysis_block_def then_render_def split: sum.splits)

lemma render_research_block_Inr:
  "render_research_block h b = Inr r \<Longrightarrow>
     child_text h (research_label b) = Inr (shown_research_label r)
   \<and> child_text h (context_text b) = Inr (shown_context r)
   \<and> render_conditional h (research_insight b) = Inr (shown_research_insight r)
   \<and> shown_research_number r = research_number b"
  by (auto simp add: render_research_block_def then_render_def split: sum.splits)

lemma render_conditional_absent [simp]:
  "render_conditional h (Skipped VUndefined) = Inr (Bare [])"
  by (simp add: render_conditional_def)

lemma render_pandas_blocks:
  assumes "steps \<noteq> []" and "render_pandas h (VArr steps) = Inr w"
  shows "\<exists>bs. w = Blocks bs \<and> length bs = length steps
     \<and> (\<forall>i<length steps.
            shown_number (bs ! i) = i + 1
          \<and> (\<not> truthy h (field (steps ! i) (lit ''section'')) \<longrightarrow>
               shown_label (bs ! i) = lit ''Analysis Step '' @ decimal (i + 1))
          \<and> (\<not> truthy h (field (steps ! i) (lit ''code'')) \<longrightarrow>
               shown_code (bs ! i) = lit ''# No code generated'')
          \<and> (\<not> truthy h (field (steps ! i) (lit ''image'')) \<longrightarrow>
               shown_plot (bs ! i) = NoImage (lit ''No visualization generated''))
          \<and> (nullish (field (steps ! i) (lit ''insight'')) \<longrightarrow>
               shown_findings (bs ! i) = Bare []))"
proof -
  from assms obtain cs bs where cs: "map_steps (analysis_block h) 0 steps = Inr cs"
    and bs: "each (render_analysis_block h) cs = Inr bs" and w: "w = Blocks bs"
    unfolding render_pandas_def PandasAgentView_steps [OF assms(1)] render_blocks_Inr by blast
  note m = map_steps_Inr [OF cs]
  note e = each_Inr [OF bs]
  have "shown_number (bs ! i) = i + 1
          \<and> (\<not> truthy h (field (steps ! i) (lit ''section'')) \<longrightarrow>
               shown_label (bs ! i) = lit ''Analysis Step '' @ decimal (i + 1))
          \<and> (\<not> truthy h (field (steps ! i) (lit ''code'')) \<longrightarrow>
               shown_code (bs ! i) = lit ''# No code generated'')
          \<and> (\<not> truthy h (field (steps ! i) (lit ''image'')) \<longrightarrow>
               shown_plot (bs ! i) = NoImage (lit ''No visualization generated''))
          \<and> (nullish (field (steps ! i) (lit ''insight'')) \<longrightarrow>
               shown_findings (bs ! i) = Bare [])"
    if i: "i < length steps" for i
  proof -
    from m i have a: "analysis_block h i (steps ! i) = Inr (cs ! i)" by simp
    from e m i have r: "render_analysis_block h (cs ! i) = Inr (bs ! i)" by simp
    note f = analysis_block_Inr [OF a]
    note g = render_analysis_block_Inr [OF r]
    have "shown_plot (bs ! i) = NoImage (lit ''No visualization generated'')"
      if "\<not> truthy h (field (steps ! i) (lit ''image''))"
      using f g that by (simp add: plot_of_def del: lit_simps)
    moreover have "shown_findings (bs ! i) = Bare []"
      if "nullish (field (steps ! i) (lit ''insight''))"
      using f g that by (auto simp add: nullish_def when_truthy_def render_conditional_def)
    moreover have "shown_label (bs ! i) = lit ''Analysis Step '' @ decimal (i + 1)"
      if "\<not> truthy h (field (steps ! i) (lit ''section''))"
      using f g that by (simp add: or_else_def del: lit_simps)
    moreover have "shown_code (bs ! i) = lit ''# No code generated''"
      if "\<not> truthy h (field (steps ! i) (lit ''code''))"
      using f g that by (simp add: or_else_def del: lit_simps)
    moreover from f g have "shown_number (bs ! i) = i + 1" by simp
    ultimately show ?thesis by blast
  qed
  with w m e show ?thesis by simp
qed

lemma render_rag_blocks:
  assumes "steps \<noteq> []" and "render_rag h (VArr steps) = Inr w"
  shows "\<exists>bs. w = Blocks bs \<and> length bs = length steps
     \<and> (\<forall>i<length steps.
            shown_research_number (bs ! i) = i + 1
          \<and> (\<not> truthy h (field (steps ! i) (lit ''section'')) \<longrightarrow>
               shown_research_label (bs ! i) = lit ''Research Step '' @ decimal (i + 1))
          \<and> (\<not> truthy h (field (steps ! i) (lit ''context'')) \<longrightarrow>
               shown_context (bs ! i) = lit ''No context found.'')
          \<and> (nullish (field (steps ! i) (lit ''insight'')) \<longrightarrow>
               shown_research_insight (bs ! i) = Bare []))"
proof -
  from assms obtain cs bs where cs: "map_steps (research_block h) 0 steps = Inr cs"
    and bs: "each (render_research_block h) cs = Inr bs" and w: "w = Blocks bs"
    unfolding render_rag_def RAGAgentView_steps [OF assms(1)] render_blocks_Inr by blast
  note m = map_steps_Inr [OF cs]
  note e = each_Inr [OF bs]
  have "shown_research_number (bs ! i) = i + 1
          \<and> (\<not> truthy h (field (steps ! i) (lit ''section'')) \<longrightarrow>
               shown_research_label (bs ! i) = lit ''Research Step '' @ decimal (i + 1))
          \<and> (\<not> truthy h (field (steps ! i) (lit ''context'')) \<longrightarrow>
               shown_context (bs ! i) = lit ''No context found.'')
          \<and> (nullish (field (steps ! i) (lit ''insight'')) \<longrightarrow>
               shown_research_insight (bs ! i) = Bare [])"
    if i: "i < length steps" for i
  proof -
    from m i have a: "research_block h i (steps ! i) = Inr (cs ! i)" by simp
    from e m i have r: "render_research_block h (cs ! i) = Inr (bs ! i)" by simp
    note f = research_block_Inr [OF a]
    note g = render_research_block_Inr [OF r]
    have "shown_research_insight (bs ! i) = Bare []"
      if "nullish (field (steps ! i) (lit ''insight''))"
      using f g that by (auto simp add: nullish_def when_truthy_def render_conditional_def)
    moreover have "shown_research_label (bs ! i) = lit ''Research Step '' @ decimal (i + 1)"
      if "\<not> truthy h (field (steps ! i) (lit ''section''))"
      using f g that by (simp add: or_else_def del: lit_simps)
    moreover have "shown_context (bs ! i) = lit ''No context found.''"
      if "\<not> truthy h (field (steps ! i) (lit ''context''))"
      using f g that by (simp add: or_else_def del: lit_simps)
    moreover from f g have "shown_research_number (bs ! i) = i + 1" by simp
    ultimately show ?thesis by blast
  qed
  with w m e show ?thesis by simp
qed

lemma render_step_views_placeholder:
  assumes "\<not> is_array d \<or> elements d = []"
  shows "render_pandas h d = Inr (Placeholder (lit ''No quantitative analysis performed in this step.''))
       \<and> render_rag h d = Inr (Placeholder (lit ''No qualitative research performed in this step.''))"
  using step_views_placeholder [OF assms, of h]
  by (simp add: render_pandas_def render_rag_def del: lit_simps)

lemma SynthesisView_falsy:
  assumes "\<not> truthy h (opt_member d (lit ''markdown_content''))"
  shows "SynthesisView h d = Inr (reportHeader @ lit ''*Report generation pending...*'')"
proof -
  from assms have "fullMarkdown h d = Inr (reportHeader @ lit ''*Report generation pending...*'')"
    by (simp add: fullMarkdown_def or_else_def del: lit_simps)
  then show ?thesis
    using header_no_bang placeholder_no_bang
    by (simp add: SynthesisView_def strip_images_prefix strip_images_no_bang del: lit_simps)
qed

lemma render_synthesis_pending:
  assumes "\<not> truthy h (opt_member d (lit ''markdown_content''))"
  shows "render_synthesis h d = Inr (reportHeader @ lit ''*Report generation pending...*'')"
  using SynthesisView_falsy [OF assms] by (simp add: render_synthesis_def del: lit_simps)

subsection \<open>Facts about the image pattern\<close>

lemma has_pair_Cons: "\<not> has_pair a b (x # xs) \<Longrightarrow> \<not> has_pair a b xs"
  by (cases xs) auto

lemma has_pair_head: "\<not> has_pair a b (x # xs) \<Longrightarrow> xs \<noteq> [] \<Longrightarrow> \<not> (x = a \<and> hd xs = b)"
  by (cases xs) auto

lemma strip_images_keeps:
  "\<not> has_pair 0x21 0x5B pre \<Longrightarrow> s = [] \<or> hd s \<noteq> 0x5B
   \<Longrightarrow> strip_images (pre @ s) = pre @ strip_images s"
proof (induction pre)
  case Nil
  then show ?case by simp
next
  case (Cons c pre)
  have "match_image (c # pre @ s) = None"
  proof (cases "pre @ s")
    case Nil
    then show ?thesis by (simp add: match_image_def)
  next
    case (Cons y ys)
    have "\<not> (c = 0x21 \<and> y = 0x5B)"
    proof (cases pre)
      case Nil
      with Cons Cons.prems(2) show ?thesis by auto
    next
      case (Cons p ps)
      with \<open>pre @ s = y # ys\<close> have "y = p" by simp
      with Cons Cons.prems(1) show ?thesis by auto
    qed
    with Cons show ?thesis by (auto simp add: match_image_def)
  qed
  moreover from Cons.prems(1) have "\<not> has_pair 0x21 0x5B pre" by (rule has_pair_Cons)
  ultimately show ?case using Cons.IH Cons.prems(2) by simp
qed

lemma strip_images_no_directive: "\<not> has_pair 0x21 0x5B s \<Longrightarrow> strip_images s = s"
  using strip_images_keeps [of s "[]"] by simp

lemma closes_early_Cons: "\<not> closes_early (x # xs) \<Longrightarrow> \<not> closes_early xs"
  by (cases xs) auto

lemma closes_early_paren: "closes_early s \<Longrightarrow> 0x29 \<in> set s"
  by (induction s rule: closes_early.induct) auto

lemma src_lazy_exact:
  "src_lazy (u @ 0x29 # r) = Some r \<longleftrightarrow> 0x29 \<notin> set u \<and> \<not> list_ex is_line_terminator u"
proof (induction u)
  case Nil
  then show ?case by simp
next
  case (Cons c u)
  have "Some (u @ 0x29 # r) \<noteq> Some r"
  proof
    assume "Some (u @ 0x29 # r) = Some r"
    then have "length (u @ 0x29 # r) = length r" by simp
    then show False by simp
  qed
  with Cons show ?case by auto
qed

lemma src_lazy_None_tail:
  "src_lazy (c # cs) = None \<Longrightarrow> \<not> is_line_terminator c \<Longrightarrow> src_lazy cs = None"
  by (simp split: if_splits)

lemma alt_lazy_None: "src_lazy s = None \<Longrightarrow> alt_lazy s = None"
proof (induction s)
  case Nil
  then show ?case by simp
next
  case (Cons c cs)
  have lt: "\<not> is_line_terminator 0x5D" "\<not> is_line_terminator 0x28"
    by (simp_all add: is_line_terminator_def)
  from Cons.prems have c: "c \<noteq> 0x29" and t: "is_line_terminator c \<or> src_lazy cs = None"
    by (auto split: if_splits)
  have "src_lazy (tl cs) = None" if "c = 0x5D" "cs \<noteq> []" "hd cs = 0x28"
  proof -
    from that obtain rest where cs: "cs = 0x28 # rest" by (cases cs) auto
    from t that lt have "src_lazy cs = None" by auto
    with cs lt show ?thesis by (simp split: if_splits)
  qed
  with t Cons.IH show ?case by auto
qed

lemma alt_lazy_exact:
  "alt_lazy (alt @ 0x5D # 0x28 # src @ 0x29 # post) = Some post \<longleftrightarrow> plain_directive alt src"
proof (induction alt)
  case Nil
  show ?case
  proof (cases "src_lazy (src @ 0x29 # post)")
    case None
    then have "src_lazy (0x28 # src @ 0x29 # post) = None"
      by (simp add: is_line_terminator_def)
    then have "alt_lazy (0x28 # src @ 0x29 # post) = None" by (rule alt_lazy_None)
    moreover from None have "\<not> (0x29 \<notin> set src \<and> \<not> list_ex is_line_terminator src)"
      using src_lazy_exact [of src post] by simp
    ultimately show ?thesis using None
      by (auto simp add: plain_directive_def is_line_terminator_def)
  next
    case (Some r)
    then show ?thesis using src_lazy_exact [of src post]
      by (auto simp add: plain_directive_def)
  qed
next
  case (Cons c alt)
  let ?D = "0x5D # 0x28 # src @ 0x29 # post"
  have lt: "\<not> is_line_terminator 0x5D" "\<not> is_line_terminator 0x28"
    by (simp_all add: is_line_terminator_def)
  show ?case
  proof (cases "c = 0x5D \<and> hd (alt @ ?D) = 0x28")
    case True
    then obtain rest where alt: "alt = 0x28 # rest" by (cases alt) auto
    have e: "rest @ ?D = (rest @ 0x5D # 0x28 # src) @ 0x29 # post" by simp
    show ?thesis
    proof (cases "src_lazy (rest @ ?D)")
      case None
      then have "src_lazy (0x28 # rest @ ?D) = None" using lt by simp
      then have n: "alt_lazy (0x28 # rest @ ?D) = None" by (rule alt_lazy_None)
      from None have "\<not> (0x29 \<notin> set (rest @ 0x5D # 0x28 # src)
           \<and> \<not> list_ex is_line_terminator (rest @ 0x5D # 0x28 # src))"
        unfolding e using src_lazy_exact [of "rest @ 0x5D # 0x28 # src" post] by simp
      then have "\<not> plain_directive (c # alt) src"
        using True alt lt by (auto simp add: plain_directive_def)
      with None n True alt lt show ?thesis by simp
    next
      case (Some r)
      have "r = post \<longleftrightarrow> 0x29 \<notin> set (rest @ 0x5D # 0x28 # src)
           \<and> \<not> list_ex is_line_terminator (rest @ 0x5D # 0x28 # src)"
        using Some src_lazy_exact [of "rest @ 0x5D # 0x28 # src" post] unfolding e by simp
      moreover have "plain_directive (c # alt) src \<longleftrightarrow> 0x29 \<notin> set (rest @ 0x5D # 0x28 # src)
           \<and> \<not> list_ex is_line_terminator (rest @ 0x5D # 0x28 # src)"
        using True alt lt closes_early_paren [of "0x28 # rest"]
        by (auto simp add: plain_directive_def)
      ultimately show ?thesis using Some True alt by simp
    qed
  next
    case False
    then have f: "\<not> (c = 0x5D \<and> alt \<noteq> [] \<and> hd alt = 0x28)" by (cases alt) auto
    then have g: "closes_early (c # alt) = closes_early alt" by (cases alt) auto
    show ?thesis
    proof (cases "is_line_terminator c")
      case True
      with False show ?thesis by (auto simp add: plain_directive_def)
    next
      case lc: False
      with False Cons.IH g show ?thesis by (auto simp add: plain_directive_def)
    qed
  qed
qed

lemma match_image_exact:
  "match_image (image_directive alt src @ post) = Some post \<longleftrightarrow> plain_directive alt src"
  using alt_lazy_exact [of alt src post] by (simp add: image_directive_def match_image_def)

lemma strip_images_plain_directive:
  assumes "plain_directive alt src"
  shows "strip_images (image_directive alt src @ post) = strip_images post"
proof -
  from assms have "match_image (image_directive alt src @ post) = Some post"
    by (simp add: match_image_exact)
  moreover have "image_directive alt src @ post = 0x21 # tl (image_directive alt src @ post)"
    by (simp add: image_directive_def)
  ultimately show ?thesis by (metis strip_images.simps(2) option.simps(5))
qed

lemma strip_images_step:
  assumes "\<not> has_pair 0x21 0x5B pre" "plain_directive alt src"
  shows "strip_images (pre @ image_directive alt src @ post) = pre @ strip_images post"
proof -
  have "hd (image_directive alt src @ post) \<noteq> 0x5B" by (simp add: image_directive_def)
  with assms(1) have "strip_images (pre @ image_directive alt src @ post)
      = pre @ strip_images (image_directive alt src @ post)"
    by (rule_tac strip_images_keeps) auto
  with assms(2) show ?thesis by (simp add: strip_images_plain_directive)
qed

lemma strip_images_all:
  "list_all (\<lambda>(pre, alt, src). \<not> has_pair 0x21 0x5B pre \<and> plain_directive alt src) segs
   \<Longrightarrow> \<not> has_pair 0x21 0x5B tail
   \<Longrightarrow> strip_images (with_directives segs tail) = without_directives segs tail"
proof (induction segs)
  case Nil
  then show ?case by (simp add: strip_images_no_directive)
next
  case (Cons seg segs)
  obtain pre alt src where seg: "seg = (pre, alt, src)" by (cases seg)
  with Cons show ?case by (simp add: strip_images_step)
qed

section \<open>The request lifecycle\<close>

text \<open>
  Claim C1.  When the parsed response carries a non-empty string in its \<open>error\<close> field,
  the handler ends with exactly that string as the error, shown in the error banner; the
  result stays cleared, the spinner is off and the visible tab is not changed.  In the
  terms of the specification the lifecycle is \<open>Failed\<close> with that message, and not
  \<open>Succeeded\<close>.
\<close>

theorem domain_failure_reaches_failed:
  assumes "field result (lit ''error'') = VStr msg" and "msg \<noteq> []"
  shows "error (snd (handleGenerate h (Parsed result) st)) = Some msg
       \<and> data (snd (handleGenerate h (Parsed result) st)) = VNull
       \<and> \<not> loading (snd (handleGenerate h (Parsed result) st))
       \<and> activeTab (snd (handleGenerate h (Parsed result) st)) = activeTab st
       \<and> spec_lifecycle (snd (handleGenerate h (Parsed result) st)) = Failed msg
       \<and> error_banner (snd (handleGenerate h (Parsed result) st)) = Some msg"
  using assms
  by (simp add: handleGenerate_def resolve_domain_failure start_def spec_lifecycle_def
      error_banner_def)

theorem domain_failure_witness:
  "field (VObj [(lit ''error'', VStr (lit ''boom''))] :: 32 word val) (lit ''error'') = VStr (lit ''boom'')
   \<and> lit ''boom'' \<noteq> []
   \<and> spec_lifecycle (snd (handleGenerate v8_host (Parsed (VObj [(lit ''error'', VStr (lit ''boom''))]))
        (initial_state\<lparr>activeTab := Rag\<rparr>))) = Failed (lit ''boom'')
   \<and> activeTab (snd (handleGenerate v8_host (Parsed (VObj [(lit ''error'', VStr (lit ''boom''))]))
        (initial_state\<lparr>activeTab := Rag\<rparr>))) = Rag"
  using domain_failure_reaches_failed [of "VObj [(lit ''error'', VStr (lit ''boom''))]" "lit ''boom''"
      v8_host "initial_state\<lparr>activeTab := Rag\<rparr>"]
  by (simp add: initial_state_def)

text \<open>
  Claim C2.  The request body is the object with the single member \<open>user_instructions\<close>
  holding the trimmed instructions: the member is always there and always a string.  The
  trimmed text is the input without a prefix and a suffix of white space and line
  terminators, it neither starts nor ends with such a code unit, and it is empty when
  the input is blank; \<open>""\<close> and three spaces both send the empty string.  On the wire the
  member is named \<open>user_instructions\<close>; a member named \<open>userInstructions\<close> is never sent.
\<close>

theorem request_body_sends_trimmed_text:
  "request_body t = VObj [(lit ''user_instructions'', VStr (trim t))]
   \<and> field (request_body t) (lit ''user_instructions'') = VStr (trim t)
   \<and> (\<exists>pre post. t = pre @ trim t @ post \<and> list_all trimmable pre \<and> list_all trimmable post)
   \<and> (trim t \<noteq> [] \<longrightarrow> \<not> trimmable (hd (trim t)) \<and> \<not> trimmable (last (trim t)))
   \<and> (list_all trimmable t \<longrightarrow> trim t = [])
   \<and> request_body [] = VObj [(lit ''user_instructions'', VStr [])]
   \<and> request_body (lit ''   '') = VObj [(lit ''user_instructions'', VStr [])]"
proof -
  have "trim (lit ''   '') = []"
    by (rule trim_blank) (simp add: trimmable_space)
  moreover have "trim [] = []" by (simp add: trim_def)
  ultimately show ?thesis
    using trim_split [of t] trim_ends [of t] trim_blank [of t]
    by (simp add: request_body_def)
qed

theorem request_body_witness:
  "trim (lit ''  hi '') = lit ''hi''
   \<and> \<not> trimmable (hd (lit ''hi'')) \<and> \<not> trimmable (last (lit ''hi''))
   \<and> (request_body (lit ''  hi '') :: 32 word val) = VObj [(lit ''user_instructions'', VStr (lit ''hi''))]
   \<and> list_all trimmable [0x0A, 0x3000, 0x09]
   \<and> trim [0x0A, 0x3000, 0x09] = []"
proof -
  note hi = request_body_sends_trimmed_text [of "lit ''  hi ''"]
  note ws = request_body_sends_trimmed_text [of "[0x0A, 0x3000, 0x09]"]
  have a: "trim (lit ''  hi '') = lit ''hi''"
    by (simp add: trim_def trimmable_def is_white_space_def is_line_terminator_def)
  have b: "list_all trimmable [0x0A, 0x3000, 0x09]"
    by (simp add: trimmable_def is_white_space_def is_line_terminator_def)
  from a have "trim (lit ''  hi '') \<noteq> []" by simp
  with hi have "\<not> trimmable (hd (trim (lit ''  hi ''))) \<and> \<not> trimmable (last (trim (lit ''  hi '')))"
    by blast
  then have c: "\<not> trimmable (hd (lit ''hi'')) \<and> \<not> trimmable (last (lit ''hi''))"
    unfolding a .
  from hi have "(request_body (lit ''  hi '') :: 32 word val)
      = VObj [(lit ''user_instructions'', VStr (trim (lit ''  hi '')))]"
    by blast
  then have d: "(request_body (lit ''  hi '') :: 32 word val)
      = VObj [(lit ''user_instructions'', VStr (lit ''hi''))]"
    unfolding a .
  from ws b have e: "trim [0x0A, 0x3000, 0x09] = []" by blast
  from a b c d e show ?thesis by blast
qed

theorem request_body_key_counterexample:
  "(request_body [] :: 32 word val) \<noteq> VObj [(lit ''userInstructions'', VStr [])]
   \<and> field (request_body [] :: 32 word val) (lit ''userInstructions'') = VUndefined"
  by (simp add: request_body_def)

text \<open>
  Claim C5.  When the parsed response is not \<open>null\<close> and its \<open>error\<close> field is absent or
  falsy, the handler stores the whole parsed value as the result, leaves no error, turns
  the spinner off and makes \<open>synthesis\<close> the visible tab, whatever tab was visible before.
  A body that is the JSON value \<open>null\<close> is different: reading \<open>result.error\<close> throws, the
  handler catches the \<open>TypeError\<close> and ends in \<open>Failed\<close> with the engine's message, on the
  tab it was on.
\<close>

theorem falsy_error_reaches_succeeded:
  assumes "\<not> nullish result" and "\<not> truthy h (field result (lit ''error''))"
  shows "data (snd (handleGenerate h (Parsed result) st)) = result
       \<and> error (snd (handleGenerate h (Parsed result) st)) = None
       \<and> \<not> loading (snd (handleGenerate h (Parsed result) st))
       \<and> activeTab (snd (handleGenerate h (Parsed result) st)) = Synthesis
       \<and> spec_lifecycle (snd (handleGenerate h (Parsed result) st)) = Succeeded result"
  using assms
  by (simp add: handleGenerate_def resolve_success start_def spec_lifecycle_def nullish_def)

theorem falsy_error_witness:
  "\<not> nullish (VObj [(lit ''synthesis'', VObj [])] :: 32 word val)
   \<and> \<not> truthy v8_host (field (VObj [(lit ''synthesis'', VObj [])]) (lit ''error''))
   \<and> spec_lifecycle (snd (handleGenerate v8_host (Parsed (VObj [(lit ''synthesis'', VObj [])]))
        (initial_state\<lparr>activeTab := Rag\<rparr>))) = Succeeded (VObj [(lit ''synthesis'', VObj [])])
   \<and> activeTab (snd (handleGenerate v8_host (Parsed (VObj [(lit ''synthesis'', VObj [])]))
        (initial_state\<lparr>activeTab := Rag\<rparr>))) = Synthesis"
  using falsy_error_reaches_succeeded [of "VObj [(lit ''synthesis'', VObj [])]" v8_host
      "initial_state\<lparr>activeTab := Rag\<rparr>"]
  by (simp add: nullish_def)

theorem null_body_counterexample:
  "spec_lifecycle (snd (handleGenerate v8_host (Parsed VNull) (initial_state\<lparr>activeTab := Rag\<rparr>)))
     = Failed (lit ''Cannot read properties of null (reading '' @ [0x27] @ lit ''error'' @ [0x27] @ lit '')'')
   \<and> data (snd (handleGenerate v8_host (Parsed VNull) (initial_state\<lparr>activeTab := Rag\<rparr>))) = VNull
   \<and> activeTab (snd (handleGenerate v8_host (Parsed VNull) (initial_state\<lparr>activeTab := Rag\<rparr>))) = Rag"
  by (simp add: handleGenerate_def resolve_def failed_def start_def spec_lifecycle_def
      initial_state_def v8_host_def v8_message_def)

text \<open>
  Claim C10.  A response whose \<open>error\<close> field is the empty string is a success: the whole
  parsed object becomes the result, no error is set, no banner is shown, and the visible
  tab jumps to \<open>synthesis\<close>.
\<close>

theorem empty_error_is_success:
  assumes "field result (lit ''error'') = VStr []"
  shows "data (snd (handleGenerate h (Parsed result) st)) = result
       \<and> error (snd (handleGenerate h (Parsed result) st)) = None
       \<and> \<not> loading (snd (handleGenerate h (Parsed result) st))
       \<and> activeTab (snd (handleGenerate h (Parsed result) st)) = Synthesis
       \<and> spec_lifecycle (snd (handleGenerate h (Parsed result) st)) = Succeeded result
       \<and> error_banner (snd (handleGenerate h (Parsed result) st)) = None"
proof -
  from assms obtain kvs where "result = VObj kvs"
    using field_text_is_object by blast
  then have "\<not> nullish result" by (simp add: nullish_def)
  moreover from assms have "\<not> truthy h (field result (lit ''error''))" by simp
  ultimately show ?thesis
    by (simp add: handleGenerate_def resolve_success start_def spec_lifecycle_def nullish_def
        error_banner_def)
qed

theorem empty_error_witness:
  "field (VObj [(lit ''error'', VStr []), (lit ''rag_agent'', VArr [])] :: 32 word val) (lit ''error'') = VStr []
   \<and> spec_lifecycle (snd (handleGenerate v8_host
        (Parsed (VObj [(lit ''error'', VStr []), (lit ''rag_agent'', VArr [])])) initial_state))
      = Succeeded (VObj [(lit ''error'', VStr []), (lit ''rag_agent'', VArr [])])
   \<and> activeTab (snd (handleGenerate v8_host
        (Parsed (VObj [(lit ''error'', VStr []), (lit ''rag_agent'', VArr [])])) initial_state)) = Synthesis"
  using empty_error_is_success [of "VObj [(lit ''error'', VStr []), (lit ''rag_agent'', VArr [])]"
      v8_host initial_state]
  by simp

section \<open>The step views\<close>

text \<open>
  Claim C7.  In every step block that is rendered, a missing \<open>code\<close> (quantitative view)
  or \<open>context\<close> (qualitative view) is replaced by its placeholder text and a missing
  \<open>image\<close> by the "No visualization generated" placeholder, whereas a missing \<open>insight\<close>
  leaves the value \<open>undefined\<close> in the place of the block, which creates no element: the
  insight block is there only when the field is present.  A step that is not \<open>null\<close>
  is rendered, in the quantitative view at least when it has no image.
\<close>

theorem absent_fields_flagged_except_insight:
  "(analysis_block h i item = Inr b \<longrightarrow>
      (field item (lit ''code'') = VUndefined \<longrightarrow> code_text b = VStr (lit ''# No code generated''))
    \<and> (field item (lit ''image'') = VUndefined \<longrightarrow> plot_area b = NoImage (lit ''No visualization generated''))
    \<and> (field item (lit ''insight'') = VUndefined \<longrightarrow> key_findings b = Skipped VUndefined)
    \<and> (\<forall>v. key_findings b = Shown v \<longrightarrow> field item (lit ''insight'') = v \<and> v \<noteq> VUndefined))
   \<and> (research_block h i item = Inr r \<longrightarrow>
      (field item (lit ''context'') = VUndefined \<longrightarrow> context_text r = VStr (lit ''No context found.''))
    \<and> (field item (lit ''insight'') = VUndefined \<longrightarrow> research_insight r = Skipped VUndefined)
    \<and> (\<forall>v. research_insight r = Shown v \<longrightarrow> field item (lit ''insight'') = v \<and> v \<noteq> VUndefined))
   \<and> (\<not> nullish item \<and> field item (lit ''image'') = VUndefined \<longrightarrow> (\<exists>b. analysis_block h i item = Inr b))
   \<and> (\<not> nullish item \<longrightarrow> (\<exists>r. research_block h i item = Inr r))"
proof -
  have a: "(field item (lit ''code'') = VUndefined \<longrightarrow> code_text b = VStr (lit ''# No code generated''))
    \<and> (field item (lit ''image'') = VUndefined \<longrightarrow> plot_area b = NoImage (lit ''No visualization generated''))
    \<and> (field item (lit ''insight'') = VUndefined \<longrightarrow> key_findings b = Skipped VUndefined)
    \<and> (\<forall>v. key_findings b = Shown v \<longrightarrow> field item (lit ''insight'') = v \<and> v \<noteq> VUndefined)"
    if "analysis_block h i item = Inr b"
  proof -
    note f = analysis_block_Inr [OF that]
    have "plot_area b = NoImage (lit ''No visualization generated'')"
      if "field item (lit ''image'') = VUndefined"
      using f plot_of_absent [OF that, of h] by simp
    moreover have "field item (lit ''insight'') = v \<and> v \<noteq> VUndefined" if "key_findings b = Shown v" for v
      using f that when_truthy_Shown [of h "field item (lit ''insight'')" v] by auto
    ultimately show ?thesis using f by (auto simp del: lit_simps)
  qed
  have b: "(field item (lit ''context'') = VUndefined \<longrightarrow> context_text r = VStr (lit ''No context found.''))
    \<and> (field item (lit ''insight'') = VUndefined \<longrightarrow> research_insight r = Skipped VUndefined)
    \<and> (\<forall>v. research_insight r = Shown v \<longrightarrow> field item (lit ''insight'') = v \<and> v \<noteq> VUndefined)"
    if "research_block h i item = Inr r"
  proof -
    note f = research_block_Inr [OF that]
    have "field item (lit ''insight'') = v \<and> v \<noteq> VUndefined" if "research_insight r = Shown v" for v
      using f that when_truthy_Shown [of h "field item (lit ''insight'')" v] by auto
    then show ?thesis using f by (auto simp del: lit_simps)
  qed
  have c: "\<exists>b. analysis_block h i item = Inr b"
    if "\<not> nullish item" "field item (lit ''image'') = VUndefined"
    using that plot_of_absent [of item h] analysis_block_total [of item h i] by blast
  from a b c research_block_total [of item h i] show ?thesis by blast
qed

theorem absent_fields_witness:
  "(\<exists>b. analysis_block v8_host 0 (VObj [(lit ''query'', VStr (lit ''q1''))]) = Inr b
      \<and> code_text b = VStr (lit ''# No code generated'')
      \<and> plot_area b = NoImage (lit ''No visualization generated'')
      \<and> key_findings b = Skipped VUndefined)
   \<and> (\<exists>r. research_block v8_host 0 (VObj [(lit ''query'', VStr (lit ''q1''))]) = Inr r
      \<and> context_text r = VStr (lit ''No context found.'')
      \<and> research_insight r = Skipped VUndefined)"
proof -
  let ?item = "VObj [(lit ''query'', VStr (lit ''q1''))] :: 32 word val"
  have f: "\<not> nullish ?item" "field ?item (lit ''code'') = VUndefined"
    "field ?item (lit ''image'') = VUndefined" "field ?item (lit ''insight'') = VUndefined"
    "field ?item (lit ''context'') = VUndefined"
    by (simp_all add: nullish_def)
  from absent_fields_flagged_except_insight [of v8_host 0 ?item] f
  obtain b where b: "analysis_block v8_host 0 ?item = Inr b" by blast
  from absent_fields_flagged_except_insight [of v8_host 0 ?item] f
  obtain r where r: "research_block v8_host 0 ?item = Inr r" by blast
  from absent_fields_flagged_except_insight [of v8_host 0 ?item b r] b r f
  have "code_text b = VStr (lit ''# No code generated'')
      \<and> plot_area b = NoImage (lit ''No visualization generated'')
      \<and> key_findings b = Skipped VUndefined
      \<and> context_text r = VStr (lit ''No context found.'')
      \<and> research_insight r = Skipped VUndefined"
    by blast
  with b r show ?thesis by blast
qed

text \<open>
  Claim C8.  A non-empty step sequence is rendered as one block per step, in the order of
  the sequence; the block at position \<open>i\<close> (counted from 0) shows the number \<open>i + 1\<close>
  and the step's query, and when the step has no \<open>section\<close> its label is
  "Analysis Step" (quantitative view) or "Research Step" (qualitative view) followed by
  \<open>i + 1\<close> in decimal; at index 2 this is "Analysis Step 3".  The qualitative view
  renders every sequence without \<open>null\<close> items, the quantitative view at least every
  sequence whose items have a string or nothing as \<open>image\<close> and \<open>section\<close>.
\<close>

theorem steps_rendered_in_order_with_fallback_labels:
  assumes "steps \<noteq> []"
  shows "(PandasAgentView h (VArr steps) = Inr v \<longrightarrow>
           (\<exists>bs. v = Blocks bs \<and> length bs = length steps
              \<and> (\<forall>i<length steps.
                    step_number (bs ! i) = i + 1
                  \<and> task (bs ! i) = field (steps ! i) (lit ''query'')
                  \<and> (field (steps ! i) (lit ''section'') = VUndefined \<longrightarrow>
                       step_label (bs ! i) = VStr (lit ''Analysis Step '' @ decimal (i + 1))))))
       \<and> (RAGAgentView h (VArr steps) = Inr w \<longrightarrow>
           (\<exists>rs. w = Blocks rs \<and> length rs = length steps
              \<and> (\<forall>i<length steps.
                    research_number (rs ! i) = i + 1
                  \<and> question (rs ! i) = field (steps ! i) (lit ''query'')
                  \<and> (field (steps ! i) (lit ''section'') = VUndefined \<longrightarrow>
                       research_label (rs ! i) = VStr (lit ''Research Step '' @ decimal (i + 1))))))
       \<and> ((\<forall>item\<in>set steps. \<not> nullish item \<and> optional_text (field item (lit ''image''))
                \<and> optional_text (field item (lit ''section'')))
            \<longrightarrow> (\<exists>bs. PandasAgentView h (VArr steps) = Inr (Blocks bs)))
       \<and> ((\<forall>item\<in>set steps. \<not> nullish item) \<longrightarrow> (\<exists>rs. RAGAgentView h (VArr steps) = Inr (Blocks rs)))
       \<and> lit ''Analysis Step '' @ decimal (2 + 1) = lit ''Analysis Step 3''"
proof -
  have a: "\<exists>bs. v = Blocks bs \<and> length bs = length steps
              \<and> (\<forall>i<length steps.
                    step_number (bs ! i) = i + 1
                  \<and> task (bs ! i) = field (steps ! i) (lit ''query'')
                  \<and> (field (steps ! i) (lit ''section'') = VUndefined \<longrightarrow>
                       step_label (bs ! i) = VStr (lit ''Analysis Step '' @ decimal (i + 1))))"
    if "PandasAgentView h (VArr steps) = Inr v"
  proof -
    from that assms obtain bs where bs: "map_steps (analysis_block h) 0 steps = Inr bs" "v = Blocks bs"
      by (cases "map_steps (analysis_block h) 0 steps") (auto simp: PandasAgentView_steps)
    note m = map_steps_Inr [OF bs(1)]
    have "step_number (bs ! i) = i + 1
        \<and> task (bs ! i) = field (steps ! i) (lit ''query'')
        \<and> (field (steps ! i) (lit ''section'') = VUndefined \<longrightarrow>
             step_label (bs ! i) = VStr (lit ''Analysis Step '' @ decimal (i + 1)))"
      if "i < length steps" for i
    proof -
      from m that have "analysis_block h i (steps ! i) = Inr (bs ! i)" by simp
      from analysis_block_Inr [OF this] show ?thesis by (auto simp del: lit_simps)
    qed
    with m bs(2) show ?thesis by blast
  qed
  have b: "\<exists>rs. w = Blocks rs \<and> length rs = length steps
              \<and> (\<forall>i<length steps.
                    research_number (rs ! i) = i + 1
                  \<and> question (rs ! i) = field (steps ! i) (lit ''query'')
                  \<and> (field (steps ! i) (lit ''section'') = VUndefined \<longrightarrow>
                       research_label (rs ! i) = VStr (lit ''Research Step '' @ decimal (i + 1))))"
    if "RAGAgentView h (VArr steps) = Inr w"
  proof -
    from that assms obtain rs where rs: "map_steps (research_block h) 0 steps = Inr rs" "w = Blocks rs"
      by (cases "map_steps (research_block h) 0 steps") (auto simp: RAGAgentView_steps)
    note m = map_steps_Inr [OF rs(1)]
    have "research_number (rs ! i) = i + 1
        \<and> question (rs ! i) = field (steps ! i) (lit ''query'')
        \<and> (field (steps ! i) (lit ''section'') = VUndefined \<longrightarrow>
             research_label (rs ! i) = VStr (lit ''Research Step '' @ decimal (i + 1)))"
      if "i < length steps" for i
    proof -
      from m that have "research_block h i (steps ! i) = Inr (rs ! i)" by simp
      from research_block_Inr [OF this] show ?thesis by (auto simp del: lit_simps)
    qed
    with m rs(2) show ?thesis by blast
  qed
  have c: "\<exists>bs. PandasAgentView h (VArr steps) = Inr (Blocks bs)"
    if "\<forall>item\<in>set steps. \<not> nullish item \<and> optional_text (field item (lit ''image''))
                \<and> optional_text (field item (lit ''section''))"
  proof -
    from that have "\<forall>x\<in>set steps. \<forall>i. \<exists>b. analysis_block h i x = Inr b"
      using analysis_block_total plot_of_optional_text by blast
    from map_steps_total [OF this] obtain bs where "map_steps (analysis_block h) 0 steps = Inr bs"
      by blast
    with assms show ?thesis by (simp add: PandasAgentView_steps)
  qed
  have d: "\<exists>rs. RAGAgentView h (VArr steps) = Inr (Blocks rs)"
    if "\<forall>item\<in>set steps. \<not> nullish item"
  proof -
    from that have "\<forall>x\<in>set steps. \<forall>i. \<exists>b. research_block h i x = Inr b"
      using research_block_total by blast
    from map_steps_total [OF this] obtain rs where "map_steps (research_block h) 0 steps = Inr rs"
      by blast
    with assms show ?thesis by (simp add: RAGAgentView_steps)
  qed
  have e: "lit ''Analysis Step '' @ decimal (2 + 1) = lit ''Analysis Step 3''"
    by (simp add: decimal_digit)
  from a b c d e show ?thesis by blast
qed


theorem steps_rendered_witness:
  "[VObj [(lit ''query'', VStr (lit ''q1''))], VObj [(lit ''section'', VStr (lit ''Trend''))], VObj []] \<noteq> []
   \<and> (\<exists>bs. PandasAgentView v8_host
          (VArr [VObj [(lit ''query'', VStr (lit ''q1''))], VObj [(lit ''section'', VStr (lit ''Trend''))], VObj []])
          = Inr (Blocks bs)
        \<and> length bs = 3 \<and> step_number (bs ! 2) = 3
        \<and> step_label (bs ! 2) = VStr (lit ''Analysis Step 3''))
   \<and> (\<exists>rs. RAGAgentView v8_host
          (VArr [VObj [(lit ''query'', VStr (lit ''q1''))], VObj [(lit ''section'', VStr (lit ''Trend''))], VObj []])
          = Inr (Blocks rs)
        \<and> length rs = 3 \<and> research_number (rs ! 2) = 3
        \<and> research_label (rs ! 2) = VStr (lit ''Research Step '' @ decimal 3))"
proof -
  let ?steps = "[VObj [(lit ''query'', VStr (lit ''q1''))], VObj [(lit ''section'', VStr (lit ''Trend''))], VObj []]
    :: 32 word val list"
  have ne: "?steps \<noteq> []" by simp
  have ok: "\<forall>item\<in>set ?steps. \<not> nullish item \<and> optional_text (field item (lit ''image''))
                \<and> optional_text (field item (lit ''section''))"
    by (simp add: nullish_def optional_text_def)
  have absent: "field (?steps ! 2) (lit ''section'') = VUndefined" by simp
  from steps_rendered_in_order_with_fallback_labels [OF ne, of v8_host] ok
  obtain bs where bs: "PandasAgentView v8_host (VArr ?steps) = Inr (Blocks bs)" by blast
  from steps_rendered_in_order_with_fallback_labels [OF ne, of v8_host] ok
  obtain rs where rs: "RAGAgentView v8_host (VArr ?steps) = Inr (Blocks rs)" by blast
  note t = steps_rendered_in_order_with_fallback_labels [OF ne, of v8_host "Blocks bs" "Blocks rs"]
  from t bs have "length bs = length ?steps
     \<and> (\<forall>i<length ?steps. step_number (bs ! i) = i + 1
          \<and> (field (?steps ! i) (lit ''section'') = VUndefined \<longrightarrow>
                step_label (bs ! i) = VStr (lit ''Analysis Step '' @ decimal (i + 1))))"
    by blast
  then have "length bs = 3 \<and> step_number (bs ! 2) = 2 + 1
     \<and> (field (?steps ! 2) (lit ''section'') = VUndefined \<longrightarrow>
          step_label (bs ! 2) = VStr (lit ''Analysis Step '' @ decimal (2 + 1)))"
    by simp
  moreover from t have "lit ''Analysis Step '' @ decimal (2 + 1) = lit ''Analysis Step 3''" by blast
  ultimately have p: "length bs = 3 \<and> step_number (bs ! 2) = 3
     \<and> step_label (bs ! 2) = VStr (lit ''Analysis Step 3'')"
    using absent by simp
  from t rs have "length rs = length ?steps
     \<and> (\<forall>i<length ?steps. research_number (rs ! i) = i + 1
          \<and> (field (?steps ! i) (lit ''section'') = VUndefined \<longrightarrow>
                research_label (rs ! i) = VStr (lit ''Research Step '' @ decimal (i + 1))))"
    by blast
  then have "length rs = 3 \<and> research_number (rs ! 2) = 2 + 1
     \<and> (field (?steps ! 2) (lit ''section'') = VUndefined \<longrightarrow>
          research_label (rs ! 2) = VStr (lit ''Research Step '' @ decimal (2 + 1)))"
    by simp
  then have q: "length rs = 3 \<and> research_number (rs ! 2) = 3
     \<and> research_label (rs ! 2) = VStr (lit ''Research Step '' @ decimal 3)"
    using absent by simp
  from ne bs rs p q show ?thesis by blast
qed

text \<open>
  Claim C3.  Rendered by React, each of the four views either appears or throws, and the
  theorem says exactly when.  A view shows its placeholder, without throwing, when its
  part of the result is absent or of the wrong type as a whole: the ingestion view shows
  "Ready", the total 0 and no columns, and the final report shows the header and the
  pending sentence, for everything that is not an object; the two step views show their
  placeholder for everything that is not an array and for the empty array.  The ingestion
  view renders exactly when the row count can be printed by \<open>toLocaleString\<close>, the status
  is a valid child, the columns are absent or an array, and the first six columns are
  valid children.  The final report renders exactly when the content can be converted to
  a string.  A step view renders an array exactly when no item is \<open>null\<close>, the section,
  query, code (context in the qualitative view) and insight of every item are valid
  children and, in the quantitative view, an image that is shown can be converted to a
  string; so items that are numbers, strings or arrays, and fields that are numbers, are
  rendered.  Whenever a view renders, a status, content, section, code, context or image
  that is missing or falsy is replaced by its placeholder ("Ready", the pending sentence,
  the numbered step label, "# No code generated", "No context found.", "No visualization
  generated"), and so is a row count, a list of columns or an insight that is missing or
  \<open>null\<close> (the total 0, no columns, no findings block).
\<close>

theorem renderers_placeholders_and_failures:
  "(\<not> is_object d \<longrightarrow>
       render_ingestion h d
         = Inr \<lparr>status_text = lit ''Ready'', total_text = lit ''0'', chip_texts = [], more_text = None\<rparr>
     \<and> render_synthesis h d = Inr (reportHeader @ lit ''*Report generation pending...*''))
   \<and> (\<not> is_array d \<or> elements d = [] \<longrightarrow>
       render_pandas h d = Inr (Placeholder (lit ''No quantitative analysis performed in this step.''))
     \<and> render_rag h d = Inr (Placeholder (lit ''No qualitative research performed in this step.'')))
   \<and> (returns (render_ingestion h d) \<longleftrightarrow>
         localizable (opt_member d (lit ''row_count'')) \<and> valid_child (opt_member d (lit ''status''))
       \<and> (nullish (opt_member d (lit ''columns'')) \<or> is_array (opt_member d (lit ''columns'')))
       \<and> (\<forall>c\<in>set (take 6 (elements (opt_member d (lit ''columns'')))). valid_child c))
   \<and> (returns (render_synthesis h d) \<longleftrightarrow> printable (opt_member d (lit ''markdown_content'')))
   \<and> (returns (render_pandas h (VArr steps)) \<longleftrightarrow>
         (\<forall>item\<in>set steps. \<not> nullish item
            \<and> valid_child (field item (lit ''section'')) \<and> valid_child (field item (lit ''query''))
            \<and> valid_child (field item (lit ''code'')) \<and> valid_child (field item (lit ''insight''))
            \<and> (truthy h (field item (lit ''image'')) \<longrightarrow> printable (field item (lit ''image'')))))
   \<and> (returns (render_rag h (VArr steps)) \<longleftrightarrow>
         (\<forall>item\<in>set steps. \<not> nullish item
            \<and> valid_child (field item (lit ''section'')) \<and> valid_child (field item (lit ''query''))
            \<and> valid_child (field item (lit ''context'')) \<and> valid_child (field item (lit ''insight''))))
   \<and> (\<forall>w. render_ingestion h d = Inr w \<longrightarrow>
         (\<not> truthy h (opt_member d (lit ''status'')) \<longrightarrow> status_text w = lit ''Ready'')
       \<and> (nullish (opt_member d (lit ''row_count'')) \<longrightarrow> total_text w = lit ''0'')
       \<and> (nullish (opt_member d (lit ''columns'')) \<longrightarrow> chip_texts w = [] \<and> more_text w = None))
   \<and> (\<not> truthy h (opt_member d (lit ''markdown_content'')) \<longrightarrow>
         render_synthesis h d = Inr (reportHeader @ lit ''*Report generation pending...*''))
   \<and> (steps \<noteq> [] \<longrightarrow> (\<forall>w. render_pandas h (VArr steps) = Inr w \<longrightarrow>
         (\<exists>bs. w = Blocks bs \<and> length bs = length steps
            \<and> (\<forall>i<length steps.
                  shown_number (bs ! i) = i + 1
                \<and> (\<not> truthy h (field (steps ! i) (lit ''section'')) \<longrightarrow>
                     shown_label (bs ! i) = lit ''Analysis Step '' @ decimal (i + 1))
                \<and> (\<not> truthy h (field (steps ! i) (lit ''code'')) \<longrightarrow>
                     shown_code (bs ! i) = lit ''# No code generated'')
                \<and> (\<not> truthy h (field (steps ! i) (lit ''image'')) \<longrightarrow>
                     shown_plot (bs ! i) = NoImage (lit ''No visualization generated''))
                \<and> (nullish (field (steps ! i) (lit ''insight'')) \<longrightarrow>
                     shown_findings (bs ! i) = Bare [])))))
   \<and> (steps \<noteq> [] \<longrightarrow> (\<forall>w. render_rag h (VArr steps) = Inr w \<longrightarrow>
         (\<exists>bs. w = Blocks bs \<and> length bs = length steps
            \<and> (\<forall>i<length steps.
                  shown_research_number (bs ! i) = i + 1
                \<and> (\<not> truthy h (field (steps ! i) (lit ''section'')) \<longrightarrow>
                     shown_research_label (bs ! i) = lit ''Research Step '' @ decimal (i + 1))
                \<and> (\<not> truthy h (field (steps ! i) (lit ''context'')) \<longrightarrow>
                     shown_context (bs ! i) = lit ''No context found.'')
                \<and> (nullish (field (steps ! i) (lit ''insight'')) \<longrightarrow>
                     shown_research_insight (bs ! i) = Bare [])))))"
proof -
  have a: "render_ingestion h d
         = Inr \<lparr>status_text = lit ''Ready'', total_text = lit ''0'', chip_texts = [], more_text = None\<rparr>
     \<and> render_synthesis h d = Inr (reportHeader @ lit ''*Report generation pending...*'')"
    if "\<not> is_object d"
    using that render_ingestion_defaults [of d h] render_synthesis_pending [of h d]
    by (simp add: opt_member_non_object del: lit_simps)
  note b = render_step_views_placeholder [of d h]
  note c = render_ingestion_returns [of h d]
  note e = render_synthesis_returns [of h d]
  note f = render_pandas_returns [of h steps]
  note g = render_rag_returns [of h steps]
  note i = render_ingestion_absent [of h d]
  note j = render_synthesis_pending [of h d]
  note k = render_pandas_blocks [of steps h]
  note l = render_rag_blocks [of steps h]
  show ?thesis
    apply (intro conjI)
    subgoal using a by blast
    subgoal using b by blast
    subgoal by (rule c)
    subgoal by (rule e)
    subgoal by (rule f)
    subgoal by (rule g)
    subgoal using i by blast
    subgoal using j by blast
    subgoal using k by blast
    subgoal using l by blast
    done
qed


theorem renderers_placeholders_witness:
  "render_ingestion v8_host VUndefined
     = Inr \<lparr>status_text = lit ''Ready'', total_text = lit ''0'', chip_texts = [], more_text = None\<rparr>
   \<and> render_synthesis v8_host (VStr (lit ''none'')) = Inr (reportHeader @ lit ''*Report generation pending...*'')
   \<and> render_pandas v8_host (VObj []) = Inr (Placeholder (lit ''No quantitative analysis performed in this step.''))
   \<and> render_rag v8_host (VArr []) = Inr (Placeholder (lit ''No qualitative research performed in this step.''))
   \<and> returns (render_ingestion v8_host
        (VObj [(lit ''row_count'', VArr []), (lit ''columns'', VArr [VNum 1, VNull])]))
   \<and> returns (render_synthesis v8_host (VObj [(lit ''markdown_content'', VNum 3)]))
   \<and> returns (render_pandas v8_host
        (VArr [VNum 5, VStr (lit ''x''), VArr [], VObj [(lit ''image'', VNum 7), (lit ''section'', VNum 2)]]))
   \<and> \<not> returns (render_rag v8_host (VArr [VObj [(lit ''query'', VObj [])]]))
   \<and> (\<exists>b. render_pandas v8_host (VArr [VObj []]) = Inr (Blocks [b])
          \<and> shown_number b = 1 \<and> shown_label b = lit ''Analysis Step 1''
          \<and> shown_code b = lit ''# No code generated''
          \<and> shown_plot b = NoImage (lit ''No visualization generated'')
          \<and> shown_findings b = Bare [])"
proof -
  have 1: "\<not> is_object (VUndefined :: 32 word val)" "\<not> is_object (VStr (lit ''none'') :: 32 word val)"
    by (simp_all add: is_object_def)
  have 2: "\<not> is_array (VObj [] :: 32 word val) \<or> elements (VObj [] :: 32 word val) = []"
    "\<not> is_array (VArr [] :: 32 word val) \<or> elements (VArr [] :: 32 word val) = []"
    by (simp_all add: is_array_def elements_def)
  from renderers_placeholders_and_failures [of VUndefined v8_host] 1(1)
  have a: "render_ingestion v8_host VUndefined
     = Inr \<lparr>status_text = lit ''Ready'', total_text = lit ''0'', chip_texts = [], more_text = None\<rparr>"
    by blast
  from renderers_placeholders_and_failures [of "VStr (lit ''none'')" v8_host] 1(2)
  have b: "render_synthesis v8_host (VStr (lit ''none'')) = Inr (reportHeader @ lit ''*Report generation pending...*'')"
    by blast
  from renderers_placeholders_and_failures [of "VObj []" v8_host] 2(1)
  have c: "render_pandas v8_host (VObj []) = Inr (Placeholder (lit ''No quantitative analysis performed in this step.''))"
    by blast
  from renderers_placeholders_and_failures [of "VArr []" v8_host] 2(2)
  have d: "render_rag v8_host (VArr []) = Inr (Placeholder (lit ''No qualitative research performed in this step.''))"
    by blast
  let ?ing = "VObj [(lit ''row_count'', VArr []), (lit ''columns'', VArr [VNum 1, VNull])] :: 32 word val"
  have "localizable (opt_member ?ing (lit ''row_count'')) \<and> valid_child (opt_member ?ing (lit ''status''))
       \<and> (nullish (opt_member ?ing (lit ''columns'')) \<or> is_array (opt_member ?ing (lit ''columns'')))
       \<and> (\<forall>c\<in>set (take 6 (elements (opt_member ?ing (lit ''columns'')))). valid_child c)"
    by (simp add: opt_member_def nullish_def is_array_def elements_def)
  with renderers_placeholders_and_failures [of ?ing v8_host]
  have e: "returns (render_ingestion v8_host ?ing)" by blast
  let ?syn = "VObj [(lit ''markdown_content'', VNum 3)] :: 32 word val"
  have "printable (opt_member ?syn (lit ''markdown_content''))"
    by (simp add: opt_member_def nullish_def)
  with renderers_placeholders_and_failures [of ?syn v8_host]
  have f: "returns (render_synthesis v8_host ?syn)" by blast
  let ?steps = "[VNum 5, VStr (lit ''x''), VArr [],
                 VObj [(lit ''image'', VNum 7), (lit ''section'', VNum 2)]] :: 32 word val list"
  have "\<forall>item\<in>set ?steps. \<not> nullish item
            \<and> valid_child (field item (lit ''section'')) \<and> valid_child (field item (lit ''query''))
            \<and> valid_child (field item (lit ''code'')) \<and> valid_child (field item (lit ''insight''))
            \<and> (truthy v8_host (field item (lit ''image'')) \<longrightarrow> printable (field item (lit ''image'')))"
    by (simp add: nullish_def)
  with renderers_placeholders_and_failures [of _ v8_host ?steps]
  have g: "returns (render_pandas v8_host (VArr ?steps))" by blast
  let ?bad = "[VObj [(lit ''query'', VObj [])]] :: 32 word val list"
  have "\<not> (\<forall>item\<in>set ?bad. \<not> nullish item
            \<and> valid_child (field item (lit ''section'')) \<and> valid_child (field item (lit ''query''))
            \<and> valid_child (field item (lit ''context'')) \<and> valid_child (field item (lit ''insight'')))"
    by simp
  with renderers_placeholders_and_failures [of _ v8_host ?bad]
  have i: "\<not> returns (render_rag v8_host (VArr ?bad))" by blast
  let ?one = "[VObj []] :: 32 word val list"
  note t = renderers_placeholders_and_failures [of _ v8_host ?one]
  have "\<forall>item\<in>set ?one. \<not> nullish item
            \<and> valid_child (field item (lit ''section'')) \<and> valid_child (field item (lit ''query''))
            \<and> valid_child (field item (lit ''code'')) \<and> valid_child (field item (lit ''insight''))
            \<and> (truthy v8_host (field item (lit ''image'')) \<longrightarrow> printable (field item (lit ''image'')))"
    by (simp add: nullish_def)
  with t have "returns (render_pandas v8_host (VArr ?one))" by blast
  then obtain w where w: "render_pandas v8_host (VArr ?one) = Inr w" unfolding returns_Ex by blast
  have ne: "?one \<noteq> []" by simp
  note k = t [THEN conjunct2, THEN conjunct2, THEN conjunct2, THEN conjunct2, THEN conjunct2,
      THEN conjunct2, THEN conjunct2, THEN conjunct2, THEN conjunct1, rule_format, OF ne w]
  from k obtain bs where bs: "w = Blocks bs" "length bs = length ?one"
    and all: "\<forall>i<length ?one.
                  shown_number (bs ! i) = i + 1
                \<and> (\<not> truthy v8_host (field (?one ! i) (lit ''section'')) \<longrightarrow>
                     shown_label (bs ! i) = lit ''Analysis Step '' @ decimal (i + 1))
                \<and> (\<not> truthy v8_host (field (?one ! i) (lit ''code'')) \<longrightarrow>
                     shown_code (bs ! i) = lit ''# No code generated'')
                \<and> (\<not> truthy v8_host (field (?one ! i) (lit ''image'')) \<longrightarrow>
                     shown_plot (bs ! i) = NoImage (lit ''No visualization generated''))
                \<and> (nullish (field (?one ! i) (lit ''insight'')) \<longrightarrow>
                     shown_findings (bs ! i) = Bare [])"
    by blast
  from bs(2) obtain b where b1: "bs = [b]" by (cases bs) auto
  from all b1 have "shown_number b = 1 \<and> shown_label b = lit ''Analysis Step 1''
          \<and> shown_code b = lit ''# No code generated''
          \<and> shown_plot b = NoImage (lit ''No visualization generated'')
          \<and> shown_findings b = Bare []"
    by (simp add: decimal_digit nullish_def)
  with w bs(1) b1 have j: "\<exists>b. render_pandas v8_host (VArr [VObj []]) = Inr (Blocks [b])
          \<and> shown_number b = 1 \<and> shown_label b = lit ''Analysis Step 1''
          \<and> shown_code b = lit ''# No code generated''
          \<and> shown_plot b = NoImage (lit ''No visualization generated'')
          \<and> shown_findings b = Bare []"
    by blast
  from a b c d e f g i j show ?thesis by blast
qed

theorem renderers_throw_counterexample:
  "main_content v8_host ((snd (handleGenerate v8_host
        (Parsed (VObj [(lit ''ingestion'', VObj [(lit ''columns'', VStr (lit ''model''))])])) initial_state))
      \<lparr>activeTab := Ingestion\<rparr>) = Inl (NotAFunction (lit ''map''))
   \<and> main_content v8_host ((snd (handleGenerate v8_host
        (Parsed (VObj [(lit ''pandas_agent'', VArr [VNull])])) initial_state))
      \<lparr>activeTab := Pandas\<rparr>) = Inl (ReadOfNull (lit ''section''))
   \<and> main_content v8_host ((snd (handleGenerate v8_host
        (Parsed (VObj [(lit ''rag_agent'', VArr [VNull])])) initial_state))
      \<lparr>activeTab := Rag\<rparr>) = Inl (ReadOfNull (lit ''section''))
   \<and> render_ingestion v8_host (VObj [(lit ''columns'', VStr (lit ''model''))])
       = Inl (ViewThrew (NotAFunction (lit ''map'')))
   \<and> render_pandas v8_host (VArr [VNull]) = Inl (ViewThrew (ReadOfNull (lit ''section'')))
   \<and> render_rag v8_host (VArr [VNull]) = Inl (ViewThrew (ReadOfNull (lit ''section'')))
   \<and> render_pandas v8_host (VArr [VObj [(lit ''query'', VObj [])]]) = Inl ObjectAsChild
   \<and> render_ingestion v8_host (VObj [(lit ''status'', VObj [])]) = Inl ObjectAsChild"
  by (simp add: handleGenerate_def resolve_def start_def main_content_def initial_state_def
      PandasAgentView_def RAGAgentView_def is_array_def elements_def
      analysis_block_def research_block_def plot_of_def or_else_def when_truthy_def
      IngestionView_def total_records_of_def columns_of_def opt_member_def nullish_def
      render_ingestion_def render_pandas_def render_rag_def render_blocks_def
      render_analysis_block_def render_research_block_def render_conditional_def)

text \<open>
  Claim C6.  When \<open>pandas_agent\<close> (or \<open>rag_agent\<close>) is the string "abc", which is not an
  array, the view shows its placeholder, but the tab label shows a badge with the number
  3, the length of the string.
\<close>

theorem badge_counts_a_non_array:
  "PandasAgentView h (field (data (snd (handleGenerate h
        (Parsed (VObj [(lit ''pandas_agent'', VStr (lit ''abc''))])) st))) (lit ''pandas_agent''))
     = Inr (Placeholder (lit ''No quantitative analysis performed in this step.''))
   \<and> tab_badge (snd (handleGenerate h
        (Parsed (VObj [(lit ''pandas_agent'', VStr (lit ''abc''))])) st)) Pandas = BadgeCount 3
   \<and> RAGAgentView h (field (data (snd (handleGenerate h
        (Parsed (VObj [(lit ''rag_agent'', VStr (lit ''abc''))])) st))) (lit ''rag_agent''))
     = Inr (Placeholder (lit ''No qualitative research performed in this step.''))
   \<and> tab_badge (snd (handleGenerate h
        (Parsed (VObj [(lit ''rag_agent'', VStr (lit ''abc''))])) st)) Rag = BadgeCount 3"
  by (simp add: handleGenerate_def resolve_def start_def tab_badge_def badge_def
      PandasAgentView_def RAGAgentView_def is_array_def opt_member_def nullish_def)

theorem badge_counts_witness:
  "tab_badge (snd (handleGenerate v8_host
        (Parsed (VObj [(lit ''pandas_agent'', VStr (lit ''abc''))])) initial_state)) Pandas = BadgeCount 3"
  using badge_counts_a_non_array [of v8_host initial_state] by blast

section \<open>The ingestion view\<close>

text \<open>
  Claim C9.  Whenever the ingestion view renders a record whose \<open>columns\<close> is an array, it
  shows the first six entries of \<open>columns\<close> and no others; when there are more than six it
  adds the indicator "+n more" with \<open>n\<close> the number of columns minus six, and otherwise
  no indicator; nine columns give the first six and "+3 more".  Without \<open>columns\<close> there
  are no entries and no indicator.  The view renders every such record whose row count
  is absent or no array and no object.
\<close>

theorem columns_capped_at_six_with_remainder:
  "(opt_member d (lit ''columns'') = VArr cs \<longrightarrow>
       (\<forall>v. IngestionView h d = Inr v \<longrightarrow>
            column_chips v = take 6 cs \<and> length (column_chips v) \<le> 6
          \<and> more_columns v
              = (if 6 < length cs then Some (lit ''+'' @ decimal (length cs - 6) @ lit '' more'') else None)
          \<and> (length cs = 9 \<longrightarrow> more_columns v = Some (lit ''+3 more'')))
     \<and> (scalar (opt_member d (lit ''row_count'')) \<longrightarrow> (\<exists>v. IngestionView h d = Inr v)))
   \<and> (nullish (opt_member d (lit ''columns'')) \<longrightarrow>
       (\<forall>v. IngestionView h d = Inr v \<longrightarrow> column_chips v = [] \<and> more_columns v = None)
     \<and> (scalar (opt_member d (lit ''row_count'')) \<longrightarrow> (\<exists>v. IngestionView h d = Inr v)))"
proof -
  have nine: "more_label (length cs) = lit ''+3 more''" if "length cs = 9"
    using that by (simp add: more_label_def decimal_digit)
  have a: "column_chips v = take 6 cs \<and> length (column_chips v) \<le> 6
          \<and> more_columns v
              = (if 6 < length cs then Some (lit ''+'' @ decimal (length cs - 6) @ lit '' more'') else None)
          \<and> (length cs = 9 \<longrightarrow> more_columns v = Some (lit ''+3 more''))"
    if "opt_member d (lit ''columns'') = VArr cs" "IngestionView h d = Inr v" for v
  proof -
    from that(2) obtain t where "total_records_of h d = Inr t"
      by (cases "total_records_of h d") (simp_all add: IngestionView_def del: lit_simps)
    with that nine show ?thesis
      by (auto simp add: IngestionView_def columns_of_def more_label_def simp del: lit_simps)
  qed
  have b: "column_chips v = [] \<and> more_columns v = None"
    if "nullish (opt_member d (lit ''columns''))" "IngestionView h d = Inr v" for v
  proof -
    from that(2) obtain t where "total_records_of h d = Inr t"
      by (cases "total_records_of h d") (simp_all add: IngestionView_def del: lit_simps)
    with that show ?thesis
      by (auto simp add: IngestionView_def columns_of_def nullish_def simp del: lit_simps)
  qed
  have c: "\<exists>v. IngestionView h d = Inr v"
    if "scalar (opt_member d (lit ''row_count''))"
       "nullish (opt_member d (lit ''columns'')) \<or> opt_member d (lit ''columns'') = VArr cs"
    using that IngestionView_total [of d h] by (auto simp add: is_array_def)
  from a b c show ?thesis by blast
qed

theorem columns_nine_witness:
  "scalar (opt_member (VObj [(lit ''row_count'', VNum 50000),
        (lit ''columns'', VArr (map (\<lambda>n. VStr (decimal n)) [1, 2, 3, 4, 5, 6, 7, 8, 9]))])
      (lit ''row_count'') :: 32 word val)
   \<and> (\<exists>v. IngestionView v8_host (VObj [(lit ''row_count'', VNum 50000),
        (lit ''columns'', VArr (map (\<lambda>n. VStr (decimal n)) [1, 2, 3, 4, 5, 6, 7, 8, 9]))]) = Inr v
      \<and> column_chips v = map (\<lambda>n. VStr (decimal n)) [1, 2, 3, 4, 5, 6]
      \<and> more_columns v = Some (lit ''+3 more''))"
proof -
  let ?cs = "map (\<lambda>n. VStr (decimal n)) [1, 2, 3, 4, 5, 6, 7, 8, 9] :: 32 word val list"
  let ?d = "VObj [(lit ''row_count'', VNum 50000), (lit ''columns'', VArr ?cs)] :: 32 word val"
  have a: "scalar (opt_member ?d (lit ''row_count''))"
    by (simp add: opt_member_def nullish_def scalar_def)
  have b: "opt_member ?d (lit ''columns'') = VArr ?cs"
    by (simp add: opt_member_def nullish_def)
  have c: "length ?cs = 9" by simp
  from columns_capped_at_six_with_remainder [of ?d ?cs v8_host] a b
  obtain v where v: "IngestionView v8_host ?d = Inr v" by blast
  with columns_capped_at_six_with_remainder [of ?d ?cs v8_host] b c
  have "column_chips v = take 6 ?cs" "more_columns v = Some (lit ''+3 more'')"
    by blast+
  moreover have "take 6 ?cs = map (\<lambda>n. VStr (decimal n)) [1, 2, 3, 4, 5, 6]" by simp
  ultimately show ?thesis using a v by auto
qed

section \<open>The final report\<close>

text \<open>
  Claim C4.  When \<open>markdown_content\<close> is absent or falsy, the text given to the markdown
  renderer is the report header followed by the placeholder sentence; when it is a
  non-empty string, the text is the header followed by the content with the matches of
  the image pattern deleted.  Text in which no \<open>!\<close> stands directly before a \<open>[\<close> passes
  unchanged, exclamation marks and brackets included.  The pattern, tried at an image
  directive, matches the directive and nothing more if and only if the directive is plain:
  neither alt text nor source contains a line terminator, the source contains no \<open>)\<close>, and
  the alt text does not contain \<open>](\<close> with a \<open>)\<close> after it.  A plain directive that follows
  text without \<open>![\<close> is deleted whole, the text before it is kept, and the text after it
  is treated in the same way; so a text made of plain directives, each after text without
  \<open>![\<close>, and a tail without \<open>![\<close> becomes the text between them and the tail.
\<close>

theorem synthesis_text_strips_plain_directives:
  "(\<not> truthy h (opt_member d (lit ''markdown_content''))
      \<longrightarrow> SynthesisView h d = Inr (reportHeader @ lit ''*Report generation pending...*''))
   \<and> (opt_member d (lit ''markdown_content'') = VStr c \<and> c \<noteq> []
      \<longrightarrow> SynthesisView h d = Inr (reportHeader @ strip_images c))
   \<and> (\<not> has_pair 0x21 0x5B c \<longrightarrow> strip_images c = c)
   \<and> (match_image (image_directive alt src @ post) = Some post \<longleftrightarrow> plain_directive alt src)
   \<and> (\<not> has_pair 0x21 0x5B pre \<and> plain_directive alt src
      \<longrightarrow> strip_images (pre @ image_directive alt src @ post) = pre @ strip_images post)
   \<and> (list_all (\<lambda>(pre, alt, src). \<not> has_pair 0x21 0x5B pre \<and> plain_directive alt src) segs
        \<and> \<not> has_pair 0x21 0x5B tail
      \<longrightarrow> strip_images (with_directives segs tail) = without_directives segs tail)"
proof -
  note a = SynthesisView_falsy [of h d]
  have b: "SynthesisView h d = Inr (reportHeader @ strip_images c)"
    if "opt_member d (lit ''markdown_content'') = VStr c" "c \<noteq> []"
    using that fullMarkdown_text [of d c h] header_no_bang
    by (simp add: SynthesisView_def strip_images_prefix del: lit_simps)
  note e = strip_images_no_directive [of c]
  note f = match_image_exact [of alt src post]
  note g = strip_images_step [of pre alt src post]
  note i = strip_images_all [of segs tail]
  show ?thesis
    apply (intro conjI)
    subgoal using a by blast
    subgoal using b by blast
    subgoal using e by blast
    subgoal by (rule f)
    subgoal using g by blast
    subgoal using i by blast
    done
qed

theorem synthesis_text_witness:
  "SynthesisView v8_host (VObj [(lit ''markdown_content'',
       VStr (lit ''Wow! ![alt](http://x/y.png) b! ![fig [2]](z.png) c''))])
     = Inr (reportHeader @ lit ''Wow!  b!  c'')
   \<and> SynthesisView v8_host (VObj [(lit ''markdown_content'', VStr (lit ''Up 5%! See [1].''))])
     = Inr (reportHeader @ lit ''Up 5%! See [1].'')
   \<and> SynthesisView v8_host VUndefined = Inr (reportHeader @ lit ''*Report generation pending...*'')
   \<and> match_image (lit ''![alt](http://x/y.png) b'') = Some (lit '' b'')"
proof -
  let ?c = "lit ''Wow! ![alt](http://x/y.png) b! ![fig [2]](z.png) c''"
  let ?d = "VObj [(lit ''markdown_content'', VStr ?c)] :: 32 word val"
  let ?segs = "[(lit ''Wow! '', lit ''alt'', lit ''http://x/y.png''),
                (lit '' b! '', lit ''fig [2]'', lit ''z.png'')]"
  note t = synthesis_text_strips_plain_directives [of v8_host ?d ?c "lit ''alt''"
      "lit ''http://x/y.png''" "lit '' b''" "lit ''Wow! ''" ?segs "lit '' c''"]
  have "opt_member ?d (lit ''markdown_content'') = VStr ?c \<and> ?c \<noteq> []"
    by (simp add: opt_member_def nullish_def)
  with t have 1: "SynthesisView v8_host ?d = Inr (reportHeader @ strip_images ?c)" by blast
  have 2: "?c = with_directives ?segs (lit '' c'')"
    by (simp add: image_directive_def)
  have "list_all (\<lambda>(pre, alt, src). \<not> has_pair 0x21 0x5B pre \<and> plain_directive alt src) ?segs
        \<and> \<not> has_pair 0x21 0x5B (lit '' c'')"
    by (simp add: plain_directive_def is_line_terminator_def)
  with t have "strip_images (with_directives ?segs (lit '' c'')) = without_directives ?segs (lit '' c'')"
    by blast
  then have 3: "strip_images ?c = lit ''Wow!  b!  c''"
    unfolding 2 by simp
  let ?p = "lit ''Up 5%! See [1].''"
  let ?e = "VObj [(lit ''markdown_content'', VStr ?p)] :: 32 word val"
  note u = synthesis_text_strips_plain_directives [of v8_host ?e ?p]
  have "opt_member ?e (lit ''markdown_content'') = VStr ?p \<and> ?p \<noteq> []"
    by (simp add: opt_member_def nullish_def)
  with u have 4: "SynthesisView v8_host ?e = Inr (reportHeader @ strip_images ?p)" by blast
  have "\<not> has_pair 0x21 0x5B ?p" by simp
  with u have 5: "strip_images ?p = ?p" by blast
  have "\<not> truthy v8_host (opt_member (VUndefined :: 32 word val) (lit ''markdown_content''))"
    by (simp add: opt_member_def nullish_def)
  with synthesis_text_strips_plain_directives [of v8_host VUndefined]
  have 6: "SynthesisView v8_host VUndefined = Inr (reportHeader @ lit ''*Report generation pending...*'')"
    by blast
  have "plain_directive (lit ''alt'') (lit ''http://x/y.png'')"
    by (simp add: plain_directive_def is_line_terminator_def)
  with t have "match_image (image_directive (lit ''alt'') (lit ''http://x/y.png'') @ lit '' b'')
      = Some (lit '' b'')" by blast
  then have 7: "match_image (lit ''![alt](http://x/y.png) b'') = Some (lit '' b'')"
    by (simp add: image_directive_def)
  from 1 3 4 5 6 7 show ?thesis by simp
qed

theorem synthesis_stray_paren_counterexample:
  "SynthesisView v8_host
     (VObj [(lit ''markdown_content'', VStr (lit ''See ![alt](http://x/y_(1).png) here''))])
     = Inr (reportHeader @ lit ''See .png) here'')
   \<and> reportHeader @ lit ''See .png) here'' \<noteq> reportHeader @ lit ''See  here''
   \<and> strip_images (lit ''![a'' @ [0x0A] @ lit ''b](u) c'') = lit ''![a'' @ [0x0A] @ lit ''b](u) c''
   \<and> strip_images (lit ''![a](b) c](u) d'') = lit '' c](u) d''
   \<and> strip_images (lit ''![x] and ![alt](u) b'') = lit '' b''"
proof -
  let ?c = "lit ''See ![alt](http://x/y_(1).png) here''"
  have "strip_images ?c = lit ''See .png) here''"
    by (simp add: match_image_def is_line_terminator_def)
  moreover have "fullMarkdown v8_host (VObj [(lit ''markdown_content'', VStr ?c)]) = Inr (reportHeader @ ?c)"
    by (simp add: fullMarkdown_def or_else_def opt_member_def nullish_def)
  ultimately have 1: "SynthesisView v8_host (VObj [(lit ''markdown_content'', VStr ?c)])
     = Inr (reportHeader @ lit ''See .png) here'')
   \<and> reportHeader @ lit ''See .png) here'' \<noteq> reportHeader @ lit ''See  here''"
    using header_no_bang
    by (simp add: SynthesisView_def strip_images_prefix del: lit_simps) simp
  have 2: "strip_images (lit ''![a'' @ [0x0A] @ lit ''b](u) c'') = lit ''![a'' @ [0x0A] @ lit ''b](u) c''"
    by (simp add: match_image_def is_line_terminator_def)
  have 3: "strip_images (lit ''![a](b) c](u) d'') = lit '' c](u) d''"
    by (simp add: match_image_def is_line_terminator_def)
  have 4: "strip_images (lit ''![x] and ![alt](u) b'') = lit '' b''"
    by (simp add: match_image_def is_line_terminator_def)
  from 1 2 3 4 show ?thesis by blast
qed

end
